theory Spec2Isabelle
  imports Main
begin

section \<open>LwSHELL: data model\<close>

text \<open>
  The embedding follows \<^verbatim>\<open>lwshell.c\<close>. A C \<^verbatim>\<open>char\<close> is a \<^typ>\<open>char\<close> (one byte).
  The three arrays of the program keep their C sizes as the lengths of the lists that
  model them: \<^verbatim>\<open>LWSHELL_ARRAYSIZE(x)\<close> is \<open>length x\<close>. The sizes themselves
  (\<^verbatim>\<open>LWSHELL_CFG_MAX_INPUT_LEN + 1\<close>, \<^verbatim>\<open>LWSHELL_CFG_MAX_CMD_ARGS\<close>,
  \<^verbatim>\<open>LWSHELL_CFG_MAX_CMDS\<close>) come from a header outside the source file and are
  parameters of the start state. A C array has at least one element, so
  \<^verbatim>\<open>LWSHELL_ARRAYSIZE(lw->buff) - 1\<close> never wraps around.

  A pointer into the line buffer is its offset (\<open>None\<close> is \<^verbatim>\<open>NULL\<close>). A string handed
  in by the caller (\<^verbatim>\<open>const char*\<close>) is \<open>None\<close> for \<^verbatim>\<open>NULL\<close> and otherwise the bytes
  before its terminator. A handler (\<^verbatim>\<open>lwshell_cmd_fn\<close>) is known by its address only.
  An access outside an array, or through \<^verbatim>\<open>NULL\<close>, has no defined behaviour in C: every
  function that can do one returns an \<open>option\<close>, and \<open>None\<close> is that outcome.
\<close>

abbreviation LWSHELL_ASCII_NULL :: char where "LWSHELL_ASCII_NULL \<equiv> CHR 0x00"
abbreviation LWSHELL_ASCII_BACKSPACE :: char where "LWSHELL_ASCII_BACKSPACE \<equiv> CHR 0x08"
abbreviation LWSHELL_ASCII_LF :: char where "LWSHELL_ASCII_LF \<equiv> CHR 0x0A"
abbreviation LWSHELL_ASCII_CR :: char where "LWSHELL_ASCII_CR \<equiv> CHR 0x0D"
abbreviation LWSHELL_ASCII_SPACE :: char where "LWSHELL_ASCII_SPACE \<equiv> CHR 0x20"
abbreviation QUOTE :: char where "QUOTE \<equiv> CHR 0x22"
abbreviation BACKSLASH :: char where "BACKSLASH \<equiv> CHR 0x5C"

datatype lwshellr_t = lwshellOK | lwshellERRPAR | lwshellERRMEM

record lwshell_cmd_t =
  fn :: "nat option"
  name :: "string option"
  desc :: "string option"

record lwshell_t =
  buff :: "char list"
  buff_ptr :: nat
  argc :: nat
  argv :: "nat option list"

text \<open>
  One handler invocation \<^verbatim>\<open>cmds[i].fn(lw->argc, lw->argv)\<close>: the handler's address, the
  count, and the strings the first \<open>argc\<close> pointers of \<open>argv\<close> point to at the call.
\<close>

datatype call = Invoke (call_fn: nat) (call_argc: nat) (call_argv: "string option list")

text \<open>
  The file's three statics (\<open>cmds\<close>, \<open>cmds_cnt\<close>, \<open>shell\<close>), and the handler
  invocations made so far, oldest first. What a handler does is outside the library; a
  handler is taken to leave the statics alone.
\<close>

record world =
  cmds :: "lwshell_cmd_t list"
  cmds_cnt :: nat
  shell :: lwshell_t
  calls :: "call list"

definition zero_cmd :: lwshell_cmd_t where
  "zero_cmd = \<lparr>fn = None, name = None, desc = None\<rparr>"

definition startup :: "nat \<Rightarrow> nat \<Rightarrow> nat \<Rightarrow> world" where
  \<comment> \<open>static storage starts zeroed; \<open>n\<close>, \<open>m\<close>, \<open>k\<close> are the sizes of \<open>buff\<close>, \<open>argv\<close>, \<open>cmds\<close>\<close>
  "startup n m k =
     \<lparr>cmds = replicate k zero_cmd, cmds_cnt = 0,
      shell = \<lparr>buff = replicate n LWSHELL_ASCII_NULL, buff_ptr = 0, argc = 0,
               argv = replicate m None\<rparr>,
      calls = []\<rparr>"

section \<open>Strings in memory\<close>

definition c_string :: "char list \<Rightarrow> string option" where
  \<comment> \<open>the string that starts at the first cell; reading on past the array if no terminator\<close>
  "c_string mem =
     (if LWSHELL_ASCII_NULL \<in> set mem then Some (takeWhile (\<lambda>c. c \<noteq> LWSHELL_ASCII_NULL) mem)
      else None)"

definition strlen :: "char list \<Rightarrow> nat option" where
  "strlen mem = map_option length (c_string mem)"

definition arg_value :: "char list \<Rightarrow> nat option \<Rightarrow> string option" where
  \<comment> \<open>the string an \<open>argv\<close> pointer points to\<close>
  "arg_value b p = (case p of None \<Rightarrow> None | Some off \<Rightarrow> c_string (drop off b))"

section \<open>The macros\<close>

definition LWSHELL_ADD_CH :: "lwshell_t \<Rightarrow> char \<Rightarrow> lwshell_t" where
  "LWSHELL_ADD_CH lw ch =
     (if buff_ptr lw < length (buff lw) - 1
      then lw\<lparr>buff := (buff lw)[buff_ptr lw := ch, buff_ptr lw + 1 := LWSHELL_ASCII_NULL],
              buff_ptr := buff_ptr lw + 1\<rparr>
      else lw)"

definition LWSHELL_RESET_BUFF :: "lwshell_t \<Rightarrow> lwshell_t" where
  \<comment> \<open>\<open>argc\<close> is not touched\<close>
  "LWSHELL_RESET_BUFF lw =
     lw\<lparr>buff := replicate (length (buff lw)) LWSHELL_ASCII_NULL,
        argv := replicate (length (argv lw)) None,
        buff_ptr := 0\<rparr>"

section \<open>The tokenizer loops of \<open>prv_parse_input\<close>\<close>

text \<open>
  \<open>str\<close> is the offset of the C pointer \<^verbatim>\<open>str\<close> into \<open>buff\<close>. Each loop reads
  \<^verbatim>\<open>*str\<close> first; with \<open>str\<close> outside the buffer that read is undefined.
  \<^verbatim>\<open>while (*str == ' ' && ++str) {}\<close>:
\<close>

function skip_spaces :: "char list \<Rightarrow> nat \<Rightarrow> nat option" where
  "skip_spaces b str =
     (if length b \<le> str then None
      else if b ! str = LWSHELL_ASCII_SPACE then skip_spaces b (str + 1)
      else Some str)"
  by pat_completeness auto
termination
  by (relation "measure (\<lambda>(b, str). length b - str)") auto

declare skip_spaces.simps [simp del]

text \<open>The loop over a quoted token, entered with \<open>str\<close> just after the opening quote.\<close>

function quote_loop :: "char list \<Rightarrow> nat \<Rightarrow> (char list \<times> nat) option" where
  "quote_loop b str =
     (if length b \<le> str then None
      else if b ! str = LWSHELL_ASCII_NULL then Some (b, str)
      else if b ! str = BACKSLASH then
        (if length b \<le> str + 1 then None
         else if b ! (str + 1) = QUOTE then quote_loop b (str + 2)
         else quote_loop b (str + 1))
      else if b ! str = QUOTE then Some (b[str := LWSHELL_ASCII_NULL], str + 1)
      else quote_loop b (str + 1))"
  by pat_completeness auto
termination
  by (relation "measure (\<lambda>(b, str). length b - str)") auto

declare quote_loop.simps [simp del]

text \<open>The loop over an unquoted token; a quote inside it is overwritten and the scan goes on.\<close>

function word_loop :: "char list \<Rightarrow> nat \<Rightarrow> (char list \<times> nat) option" where
  "word_loop b str =
     (if length b \<le> str then None
      else if b ! str \<noteq> LWSHELL_ASCII_SPACE \<and> b ! str \<noteq> LWSHELL_ASCII_NULL then
        word_loop (if b ! str = QUOTE then b[str := LWSHELL_ASCII_NULL] else b) (str + 1)
      else Some (b, str))"
  by pat_completeness auto
termination
  by (relation "measure (\<lambda>(b, str). length b - str)") auto

declare word_loop.simps [simp del]

lemma skip_spaces_bounds:
  "skip_spaces b str = Some str' \<Longrightarrow> str \<le> str' \<and> str' < length b"
proof (induction b str rule: skip_spaces.induct)
  case (1 b str)
  show ?case
    using "1.prems" "1.IH"
    by (subst (asm) skip_spaces.simps[of b str]) (auto split: if_splits)
qed

lemma quote_loop_bounds:
  "quote_loop b str = Some (b', str') \<Longrightarrow>
     str \<le> str' \<and> str' \<le> length b \<and> length b' = length b"
proof (induction b str rule: quote_loop.induct)
  case (1 b str)
  show ?case
    using "1.prems" "1.IH"
    by (subst (asm) quote_loop.simps[of b str]) (auto split: if_splits)
qed

lemma word_loop_bounds:
  "word_loop b str = Some (b', str') \<Longrightarrow>
     str \<le> str' \<and> str' < length b \<and> length b' = length b"
proof (induction b str rule: word_loop.induct)
  case (1 b str)
  show ?case
    using "1.prems" "1.IH"
    by (subst (asm) word_loop.simps[of b str]) (auto split: if_splits)
qed

text \<open>
  The outer loop \<^verbatim>\<open>while (*str != '\0')\<close> of \<open>prv_parse_input\<close>. Storing a token's
  start, \<^verbatim>\<open>lw->argv[lw->argc++] = str\<close>, is a write outside \<open>argv\<close> when \<open>argc\<close> is
  not below its size. After an unquoted token the code writes the terminator and steps
  over it (\<^verbatim>\<open>*str = '\0'; ++str;\<close>), so the next test of the loop reads the cell after
  the token's end, also when the token ended at the end of the line.
\<close>

function parse_loop :: "lwshell_t \<Rightarrow> nat \<Rightarrow> lwshell_t option" where
  "parse_loop lw str =
     (if length (buff lw) \<le> str then None
      else if buff lw ! str = LWSHELL_ASCII_NULL then Some lw
      else
        (case skip_spaces (buff lw) str of
           None \<Rightarrow> None
         | Some str1 \<Rightarrow>
             if buff lw ! str1 = LWSHELL_ASCII_NULL then Some lw
             else if length (argv lw) \<le> argc lw then None
             else if buff lw ! str1 = QUOTE then
               (case quote_loop (buff lw) (str1 + 1) of
                  None \<Rightarrow> None
                | Some (b', str2) \<Rightarrow>
                    let lw' = lw\<lparr>buff := b', argc := argc lw + 1,
                                  argv := (argv lw)[argc lw := Some (str1 + 1)]\<rparr>
                    in if argc lw' = length (argv lw') then Some lw'
                       else parse_loop lw' str2)
             else
               (case word_loop (buff lw) str1 of
                  None \<Rightarrow> None
                | Some (b', str2) \<Rightarrow>
                    let lw' = lw\<lparr>buff := b'[str2 := LWSHELL_ASCII_NULL], argc := argc lw + 1,
                                  argv := (argv lw)[argc lw := Some str1]\<rparr>
                    in if argc lw' = length (argv lw') then Some lw'
                       else parse_loop lw' (str2 + 1))))"
  by pat_completeness auto
termination
proof (relation "measure (\<lambda>(lw, str). length (buff lw) - str)")
  show "wf (measure (\<lambda>(lw, str). length (buff lw) - str))"
    by simp
next
  fix lw :: lwshell_t and str str1 :: nat and x2 b' str2 lw'
  assume "\<not> length (buff lw) \<le> str"
    and "skip_spaces (buff lw) str = Some str1"
    and "quote_loop (buff lw) (str1 + 1) = Some x2"
    and "(b', str2) = x2"
    and "lw' = lw\<lparr>buff := b', argc := argc lw + 1,
                   argv := (argv lw)[argc lw := Some (str1 + 1)]\<rparr>"
  then show "((lw', str2), lw, str) \<in> measure (\<lambda>(lw, str). length (buff lw) - str)"
    using skip_spaces_bounds [of "buff lw" str str1]
      quote_loop_bounds [of "buff lw" "str1 + 1" b' str2]
    by auto
next
  fix lw :: lwshell_t and str str1 :: nat and x2 b' str2 lw'
  assume "\<not> length (buff lw) \<le> str"
    and "skip_spaces (buff lw) str = Some str1"
    and "word_loop (buff lw) str1 = Some x2"
    and "(b', str2) = x2"
    and "lw' = lw\<lparr>buff := b'[str2 := LWSHELL_ASCII_NULL], argc := argc lw + 1,
                   argv := (argv lw)[argc lw := Some str1]\<rparr>"
  then show "((lw', str2 + 1), lw, str) \<in> measure (\<lambda>(lw, str). length (buff lw) - str)"
    using skip_spaces_bounds [of "buff lw" str str1]
      word_loop_bounds [of "buff lw" str1 b' str2]
    by auto
qed

declare parse_loop.simps [simp del]

section \<open>Dispatch and \<open>prv_parse_input\<close>\<close>

text \<open>
  The loop \<^verbatim>\<open>for (size_t i = 0; i < cmds_cnt; ++i)\<close>, from index \<open>i\<close> on: the handler
  invocations it makes, in order. \<^verbatim>\<open>strcmp\<close> reads both strings, so a \<^verbatim>\<open>NULL\<close> name, or
  a first token that is \<^verbatim>\<open>NULL\<close> or not terminated, is undefined; so is a call through a
  \<^verbatim>\<open>NULL\<close> handler.
\<close>

function dispatch_loop :: "lwshell_cmd_t list \<Rightarrow> nat \<Rightarrow> lwshell_t \<Rightarrow> nat \<Rightarrow> call list option" where
  "dispatch_loop cs cnt lw i =
     (if i < cnt then
        (if length cs \<le> i \<or> argv lw = [] then None
         else
           (case (name (cs ! i), arg_value (buff lw) (argv lw ! 0)) of
              (Some n, Some a0) \<Rightarrow>
                if n = a0 then
                  (case fn (cs ! i) of
                     None \<Rightarrow> None
                   | Some f \<Rightarrow>
                       map_option
                         ((#) (Invoke f (argc lw)
                                 (map (arg_value (buff lw)) (take (argc lw) (argv lw)))))
                         (dispatch_loop cs cnt lw (i + 1)))
                else dispatch_loop cs cnt lw (i + 1)
            | _ \<Rightarrow> None))
      else Some [])"
  by pat_completeness auto
termination
  by (relation "measure (\<lambda>(cs, cnt, lw, i). cnt - i)") auto

declare dispatch_loop.simps [simp del]

definition prv_parse_input :: "world \<Rightarrow> world option" where
  "prv_parse_input w =
     (let lw = shell w in
      case strlen (buff lw) of
        None \<Rightarrow> None
      | Some s_len \<Rightarrow>
          if buff_ptr lw \<noteq> s_len then Some w
          else if buff_ptr lw > 0 then
            (if argv lw = [] then None
             else
               (case parse_loop (lw\<lparr>argc := 0, argv := (argv lw)[0 := Some 0]\<rparr>) 0 of
                  None \<Rightarrow> None
                | Some lw' \<Rightarrow>
                    if argc lw' > 0 \<and> cmds_cnt w > 0 then
                      (case dispatch_loop (cmds w) (cmds_cnt w) lw' 0 of
                         None \<Rightarrow> None
                       | Some cs \<Rightarrow> Some (w\<lparr>shell := lw', calls := calls w @ cs\<rparr>))
                    else Some (w\<lparr>shell := lw'\<rparr>)))
          else Some w)"

section \<open>The interface\<close>

definition lwshell_init :: "world \<Rightarrow> lwshellr_t \<times> world" where
  \<comment> \<open>\<^verbatim>\<open>memset(lw, 0x00, sizeof(*lw))\<close>\<close>
  "lwshell_init w =
     (lwshellOK,
      w\<lparr>shell := \<lparr>buff = replicate (length (buff (shell w))) LWSHELL_ASCII_NULL,
                    buff_ptr = 0, argc = 0,
                    argv = replicate (length (argv (shell w))) None\<rparr>\<rparr>)"

definition lwshell_register_cmd ::
    "string option \<Rightarrow> nat option \<Rightarrow> string option \<Rightarrow> world \<Rightarrow> lwshellr_t \<times> world" where
  "lwshell_register_cmd cmd_name cmd_fn dsc w =
     (if cmd_name = None \<or> cmd_fn = None \<or> map_option length cmd_name = Some 0
      then (lwshellERRPAR, w)
      else if cmds_cnt w < length (cmds w) then
        (lwshellOK,
         w\<lparr>cmds := (cmds w)[cmds_cnt w := \<lparr>fn = cmd_fn, name = cmd_name, desc = dsc\<rparr>],
           cmds_cnt := cmds_cnt w + 1\<rparr>)
      else (lwshellERRMEM, w))"

definition is_printable :: "char \<Rightarrow> bool" where
  \<comment> \<open>\<^verbatim>\<open>d[i] >= 0x20 && d[i] < 0x7F\<close>; a byte from 0x80 on fails one of the two tests
      whether \<^verbatim>\<open>char\<close> is signed or not\<close>
  "is_printable ch = (0x20 \<le> (of_char ch :: nat) \<and> (of_char ch :: nat) < 0x7F)"

definition input_byte :: "char \<Rightarrow> world \<Rightarrow> world option" where
  \<comment> \<open>the body of the loop of \<open>lwshell_input\<close>: \<^verbatim>\<open>switch (d[i])\<close>\<close>
  "input_byte ch w =
     (if ch = LWSHELL_ASCII_CR then
        map_option (\<lambda>w'. w'\<lparr>shell := LWSHELL_RESET_BUFF (shell w')\<rparr>) (prv_parse_input w)
      else if ch = LWSHELL_ASCII_LF then
        map_option (\<lambda>w'. w'\<lparr>shell := LWSHELL_RESET_BUFF (shell w')\<rparr>) (prv_parse_input w)
      else if ch = LWSHELL_ASCII_BACKSPACE then
        (let lw = shell w in
         if buff_ptr lw > 0 then
           (if length (buff lw) \<le> buff_ptr lw then None
            else Some (w\<lparr>shell := lw\<lparr>buff := (buff lw)[buff_ptr lw := LWSHELL_ASCII_NULL],
                                      buff_ptr := buff_ptr lw - 1\<rparr>\<rparr>))
         else Some w)
      else if is_printable ch then Some (w\<lparr>shell := LWSHELL_ADD_CH (shell w) ch\<rparr>)
      else Some w)"

fun input_loop :: "char list \<Rightarrow> world \<Rightarrow> world option" where
  "input_loop [] w = Some w"
| "input_loop (ch # d) w =
     (case input_byte ch w of None \<Rightarrow> None | Some w' \<Rightarrow> input_loop d w')"

definition lwshell_input :: "char list option \<Rightarrow> nat \<Rightarrow> world \<Rightarrow> (lwshellr_t \<times> world) option" where
  \<comment> \<open>\<open>in_data\<close> is the memory readable at the pointer; a \<open>len\<close> beyond it reads outside\<close>
  "lwshell_input in_data len w =
     (case in_data of
        None \<Rightarrow> Some (lwshellERRPAR, w)
      | Some d \<Rightarrow>
          if len = 0 then Some (lwshellERRPAR, w)
          else if length d < len then None
          else map_option (Pair lwshellOK) (input_loop (take len d) w))"

section \<open>Callers\<close>

text \<open>
  A caller that feeds a list of chunks, one call of \<open>lwshell_input\<close> per chunk, and the
  registered part of the command table (the first \<open>cmds_cnt\<close> entries).
\<close>

fun feed_chunks :: "char list list \<Rightarrow> world \<Rightarrow> world option" where
  "feed_chunks [] w = Some w"
| "feed_chunks (c # cs) w =
     (case lwshell_input (Some c) (length c) w of
        None \<Rightarrow> None
      | Some (r, w') \<Rightarrow> feed_chunks cs w')"

definition registered :: "world \<Rightarrow> lwshell_cmd_t list" where
  "registered w = take (cmds_cnt w) (cmds w)"

definition with_cmd :: "string \<Rightarrow> nat \<Rightarrow> world \<Rightarrow> world" where
  \<comment> \<open>the state after \<^verbatim>\<open>lwshell_register_cmd(n, f, NULL)\<close>\<close>
  "with_cmd n f w = snd (lwshell_register_cmd (Some n) (Some f) None w)"

section \<open>Invariants, stated rules and example states\<close>

text \<open>
  What the code keeps true of the buffer after every byte: the tracked length is below
  the capacity, no terminator stands before it, every cell after it holds the
  terminator, and so does the last cell. The cell at the tracked length itself is not
  constrained: see the backspace branch.
\<close>

definition shell_inv :: "lwshell_t \<Rightarrow> bool" where
  "shell_inv lw \<longleftrightarrow>
     buff_ptr lw < length (buff lw) \<and>
     LWSHELL_ASCII_NULL \<notin> set (take (buff_ptr lw) (buff lw)) \<and>
     list_all (\<lambda>c. c = LWSHELL_ASCII_NULL) (drop (buff_ptr lw + 1) (buff lw)) \<and>
     last (buff lw) = LWSHELL_ASCII_NULL"

text \<open>
  The state a backspace leaves: the byte at the tracked length is the erased one, not
  the terminator, so the measured length is larger than the tracked one.
\<close>

definition desync :: "lwshell_t \<Rightarrow> bool" where
  "desync lw \<longleftrightarrow>
     buff_ptr lw + 1 < length (buff lw) \<and>
     LWSHELL_ASCII_NULL \<notin> set (take (buff_ptr lw + 1) (buff lw)) \<and>
     last (buff lw) = LWSHELL_ASCII_NULL"

definition typed_cmd :: world where
  \<comment> \<open>\<open>cm\<close> registered, \<open>cmd\<close> typed: the state after \<^verbatim>\<open>lwshell_input("cmd", 3)\<close>\<close>
  "typed_cmd =
     \<lparr>cmds = [\<lparr>fn = Some 7, name = Some ''cm'', desc = None\<rparr>, zero_cmd], cmds_cnt = 1,
      shell = \<lparr>buff = ''cmd'' @ replicate 5 LWSHELL_ASCII_NULL, buff_ptr = 3, argc = 0,
               argv = replicate 4 None\<rparr>,
      calls = []\<rparr>"

definition spec_buffer_invariant :: "lwshell_t \<Rightarrow> bool" where
  \<comment> \<open>the invariant of the data model, in its own words: no terminator inside, the
      terminator at the logical end, the length at most the capacity minus one\<close>
  "spec_buffer_invariant lw \<longleftrightarrow>
     LWSHELL_ASCII_NULL \<notin> set (take (buff_ptr lw) (buff lw)) \<and>
     buff_ptr lw < length (buff lw) \<and>
     buff lw ! buff_ptr lw = LWSHELL_ASCII_NULL"

text \<open>What registration guarantees of the table, and input never changes.\<close>

definition registry_ok :: "world \<Rightarrow> bool" where
  "registry_ok w \<longleftrightarrow>
     cmds_cnt w \<le> length (cmds w) \<and>
     list_all (\<lambda>c. name c \<noteq> None \<and> fn c \<noteq> None) (registered w)"

definition typed_cmd_twice :: world where
  \<comment> \<open>\<open>cmd\<close> registered twice, with handlers 7 and 8, and \<open>cmd\<close> typed\<close>
  "typed_cmd_twice =
     \<lparr>cmds = [\<lparr>fn = Some 7, name = Some ''cmd'', desc = None\<rparr>,
              \<lparr>fn = Some 8, name = Some ''cmd'', desc = None\<rparr>], cmds_cnt = 2,
      shell = \<lparr>buff = ''cmd'' @ replicate 5 LWSHELL_ASCII_NULL, buff_ptr = 3, argc = 0,
               argv = replicate 4 None\<rparr>,
      calls = []\<rparr>"

definition fresh :: "nat \<Rightarrow> world \<Rightarrow> bool" where
  \<comment> \<open>the buffer as \<open>lwshell_init\<close> and \<open>LWSHELL_RESET_BUFF\<close> leave it, with \<open>n\<close> cells\<close>
  "fresh n w \<longleftrightarrow> buff (shell w) = replicate n LWSHELL_ASCII_NULL \<and> buff_ptr (shell w) = 0"

definition quoted_token_of :: "char list \<Rightarrow> nat \<Rightarrow> string option" where
  \<comment> \<open>the token a handler reads at \<open>str\<close>, the start of a quoted token, once the loop over
      the token has run\<close>
  "quoted_token_of b str =
     (case quote_loop b str of None \<Rightarrow> None | Some (b', str') \<Rightarrow> arg_value b' (Some str))"

definition quote_stop :: "char list \<Rightarrow> nat \<Rightarrow> nat \<Rightarrow> bool" where
  \<comment> \<open>cell \<open>j\<close> of a quoted token that starts at \<open>str\<close> holds the end of the line, or a
      quote that is the first byte of the token or does not follow a backslash\<close>
  "quote_stop b str j \<longleftrightarrow>
     b ! j = LWSHELL_ASCII_NULL \<or> (b ! j = QUOTE \<and> (j = str \<or> b ! (j - 1) \<noteq> BACKSLASH))"

fun spec_quoted_token :: "string \<Rightarrow> string" where
  \<comment> \<open>the rule in the words of the tokenizer's description, on the text after the
      opening quote: a backslash escapes the byte after it, whatever it is, both are kept,
      and the first quote not escaped ends the token\<close>
  "spec_quoted_token [] = []"
| "spec_quoted_token [c] = (if c = QUOTE then [] else [c])"
| "spec_quoted_token (c # e # cs) =
     (if c = BACKSLASH then c # e # spec_quoted_token cs
      else if c = QUOTE then []
      else c # spec_quoted_token (e # cs))"

definition after_first_token :: lwshell_t where
  \<comment> \<open>the tokenizer's state on \<open>cmd "hello world"\<close> in a buffer of 24 cells, the first
      token done and \<open>str\<close> at index 4\<close>
  "after_first_token =
     \<lparr>buff = ''cmd'' @ [LWSHELL_ASCII_NULL, QUOTE] @ ''hello world'' @ [QUOTE] @
               replicate 7 LWSHELL_ASCII_NULL,
      buff_ptr = 17, argc = 1, argv = [Some 0, None, None, None]\<rparr>"

definition after_cmd_token :: lwshell_t where
  \<comment> \<open>the tokenizer's state on \<open>cmd "a\\" b\<close> in a buffer of 16 cells, the first token
      done and \<open>str\<close> at index 4\<close>
  "after_cmd_token =
     \<lparr>buff = ''cmd'' @ [LWSHELL_ASCII_NULL, QUOTE] @ ''a'' @ [BACKSLASH, BACKSLASH, QUOTE] @
               '' b'' @ replicate 5 LWSHELL_ASCII_NULL,
      buff_ptr = 11, argc = 1, argv = [Some 0, None, None, None]\<rparr>"

section \<open>Input as a loop over bytes\<close>

lemma input_loop_append:
  "input_loop (xs @ ys) w =
     (case input_loop xs w of None \<Rightarrow> None | Some w' \<Rightarrow> input_loop ys w')"
  by (induction xs arbitrary: w) (auto split: option.splits)

lemma lwshell_input_all:
  "d \<noteq> [] \<Longrightarrow>
     lwshell_input (Some d) (length d) w = map_option (Pair lwshellOK) (input_loop d w)"
  by (simp add: lwshell_input_def)

lemma lwshell_input_single:
  "lwshell_input (Some [ch]) (Suc 0) w = map_option (Pair lwshellOK) (input_byte ch w)"
  by (cases "input_byte ch w") (simp_all add: lwshell_input_def)

lemma feed_chunks_input_loop:
  "\<forall>c\<in>set cs. c \<noteq> [] \<Longrightarrow> feed_chunks cs w = input_loop (concat cs) w"
proof (induction cs arbitrary: w)
  case Nil
  show ?case by simp
next
  case (Cons c cs)
  then have c: "c \<noteq> []" and rest: "\<forall>c\<in>set cs. c \<noteq> []"
    by simp_all
  show ?case
    by (cases "input_loop c w")
      (simp_all add: lwshell_input_all [OF c] input_loop_append Cons.IH [OF rest])
qed

text \<open>
  C1. Chunk independence: feeding a byte sequence as any list of non-empty chunks, one
  call per chunk, ends in the same state as one call on the whole sequence. The state
  holds the handler invocations made (handler, count, argument values, in order) next
  to the shell and the table, so both agree; when one run hits undefined behaviour, so
  does the other. With no chunk at all the single call is the one with length zero,
  which changes nothing.
\<close>

theorem chunk_independence:
  assumes "\<forall>c\<in>set cs. c \<noteq> []"
  shows "feed_chunks cs w =
           map_option snd (lwshell_input (Some (concat cs)) (length (concat cs)) w)"
proof (cases "cs = []")
  case True
  then show ?thesis
    by (simp add: lwshell_input_def)
next
  case False
  with assms have "concat cs \<noteq> []"
    by (cases cs) auto
  then have "lwshell_input (Some (concat cs)) (length (concat cs)) w =
               map_option (Pair lwshellOK) (input_loop (concat cs) w)"
    by (rule lwshell_input_all)
  then show ?thesis
    using feed_chunks_input_loop [OF assms]
    by (simp add: option.map_comp comp_def option.map_ident)
qed

theorem chunk_independence_witness:
  "feed_chunks [''cm'', ''d a'', ''rg'' @ [LWSHELL_ASCII_CR], [LWSHELL_ASCII_LF]]
       (with_cmd ''cmd'' 7 (startup 16 4 2)) =
     map_option snd
       (lwshell_input
          (Some (concat [''cm'', ''d a'', ''rg'' @ [LWSHELL_ASCII_CR], [LWSHELL_ASCII_LF]]))
          (length (concat [''cm'', ''d a'', ''rg'' @ [LWSHELL_ASCII_CR], [LWSHELL_ASCII_LF]]))
          (with_cmd ''cmd'' 7 (startup 16 4 2))) \<and>
   map_option calls
       (feed_chunks [''cm'', ''d a'', ''rg'' @ [LWSHELL_ASCII_CR], [LWSHELL_ASCII_LF]]
          (with_cmd ''cmd'' 7 (startup 16 4 2))) =
     Some [Invoke 7 2 [Some ''cmd'', Some ''arg'']]"
proof -
  have "feed_chunks [''cm'', ''d a'', ''rg'' @ [LWSHELL_ASCII_CR], [LWSHELL_ASCII_LF]]
       (with_cmd ''cmd'' 7 (startup 16 4 2)) =
     map_option snd
       (lwshell_input
          (Some (concat [''cm'', ''d a'', ''rg'' @ [LWSHELL_ASCII_CR], [LWSHELL_ASCII_LF]]))
          (length (concat [''cm'', ''d a'', ''rg'' @ [LWSHELL_ASCII_CR], [LWSHELL_ASCII_LF]]))
          (with_cmd ''cmd'' 7 (startup 16 4 2)))"
    by (rule chunk_independence) simp_all
  moreover have "map_option calls
       (feed_chunks [''cm'', ''d a'', ''rg'' @ [LWSHELL_ASCII_CR], [LWSHELL_ASCII_LF]]
          (with_cmd ''cmd'' 7 (startup 16 4 2))) =
     Some [Invoke 7 2 [Some ''cmd'', Some ''arg'']]"
    by code_simp
  ultimately show ?thesis
    by (rule conjI)
qed

section \<open>Registration\<close>

text \<open>
  C6. Registration contract. The result is the parameter error exactly when the name
  is \<^verbatim>\<open>NULL\<close> or empty or the handler is \<^verbatim>\<open>NULL\<close>, and then nothing changes. With
  good parameters and a full table the result is the capacity error and nothing changes.
  With good parameters and room, the result is success, the count grows by one, the
  new entry (name, handler, description) follows the entries registered before, which
  keep their order, and nothing else changes.
\<close>

theorem register_contract:
  "(fst (lwshell_register_cmd cmd_name cmd_fn dsc w) = lwshellERRPAR \<longleftrightarrow>
      cmd_name = None \<or> cmd_name = Some [] \<or> cmd_fn = None) \<and>
   (fst (lwshell_register_cmd cmd_name cmd_fn dsc w) = lwshellERRPAR \<longrightarrow>
      snd (lwshell_register_cmd cmd_name cmd_fn dsc w) = w) \<and>
   (cmd_name \<noteq> None \<and> cmd_name \<noteq> Some [] \<and> cmd_fn \<noteq> None \<and>
    cmds_cnt w = length (cmds w) \<longrightarrow>
      lwshell_register_cmd cmd_name cmd_fn dsc w = (lwshellERRMEM, w)) \<and>
   (cmd_name \<noteq> None \<and> cmd_name \<noteq> Some [] \<and> cmd_fn \<noteq> None \<and>
    cmds_cnt w < length (cmds w) \<longrightarrow>
      fst (lwshell_register_cmd cmd_name cmd_fn dsc w) = lwshellOK \<and>
      cmds_cnt (snd (lwshell_register_cmd cmd_name cmd_fn dsc w)) = cmds_cnt w + 1 \<and>
      length (cmds (snd (lwshell_register_cmd cmd_name cmd_fn dsc w))) = length (cmds w) \<and>
      registered (snd (lwshell_register_cmd cmd_name cmd_fn dsc w)) =
        registered w @ [\<lparr>fn = cmd_fn, name = cmd_name, desc = dsc\<rparr>] \<and>
      shell (snd (lwshell_register_cmd cmd_name cmd_fn dsc w)) = shell w \<and>
      calls (snd (lwshell_register_cmd cmd_name cmd_fn dsc w)) = calls w)"
  by (auto simp: lwshell_register_cmd_def registered_def take_Suc_conv_app_nth)

theorem register_contract_witness:
  "lwshell_register_cmd (Some ''cmd'') (Some 7) (Some ''help'') (startup 8 4 1) =
     (lwshellOK,
      startup 8 4 1\<lparr>cmds := [\<lparr>fn = Some 7, name = Some ''cmd'', desc = Some ''help''\<rparr>],
                    cmds_cnt := 1\<rparr>) \<and>
   registered (snd (lwshell_register_cmd (Some ''cmd'') (Some 7) (Some ''help'') (startup 8 4 1))) =
     [\<lparr>fn = Some 7, name = Some ''cmd'', desc = Some ''help''\<rparr>] \<and>
   lwshell_register_cmd (Some ''two'') (Some 8) None (with_cmd ''cmd'' 7 (startup 8 4 1)) =
     (lwshellERRMEM, with_cmd ''cmd'' 7 (startup 8 4 1)) \<and>
   lwshell_register_cmd (Some []) (Some 8) None (with_cmd ''cmd'' 7 (startup 8 4 1)) =
     (lwshellERRPAR, with_cmd ''cmd'' 7 (startup 8 4 1)) \<and>
   lwshell_register_cmd None (Some 8) None (with_cmd ''cmd'' 7 (startup 8 4 1)) =
     (lwshellERRPAR, with_cmd ''cmd'' 7 (startup 8 4 1)) \<and>
   lwshell_register_cmd (Some ''two'') None None (with_cmd ''cmd'' 7 (startup 8 4 1)) =
     (lwshellERRPAR, with_cmd ''cmd'' 7 (startup 8 4 1))"
  using register_contract [of "Some ''cmd''" "Some 7" "Some ''help''" "startup 8 4 1"]
    register_contract [of "Some ''two''" "Some 8" None "with_cmd ''cmd'' 7 (startup 8 4 1)"]
    register_contract [of "Some []" "Some 8" None "with_cmd ''cmd'' 7 (startup 8 4 1)"]
    register_contract [of "None" "Some 8" None "with_cmd ''cmd'' 7 (startup 8 4 1)"]
    register_contract [of "Some ''two''" None None "with_cmd ''cmd'' 7 (startup 8 4 1)"]
  by (simp add: with_cmd_def startup_def registered_def prod_eq_iff lwshell_register_cmd_def
      zero_cmd_def)

section \<open>One byte at a time\<close>

lemma printable_not_control:
  "of_char ch \<in> {0x20 .. 0x7E :: nat} \<Longrightarrow>
     is_printable ch \<and> ch \<noteq> LWSHELL_ASCII_CR \<and> ch \<noteq> LWSHELL_ASCII_LF \<and>
     ch \<noteq> LWSHELL_ASCII_BACKSPACE \<and> ch \<noteq> LWSHELL_ASCII_NULL"
  by (auto simp: is_printable_def)

lemma not_printable: "of_char ch \<notin> {0x20 .. 0x7E :: nat} \<Longrightarrow> \<not> is_printable ch"
  by (auto simp: is_printable_def)

lemma input_loop_no_parse:
  "\<forall>c\<in>set d. c \<noteq> LWSHELL_ASCII_CR \<and> c \<noteq> LWSHELL_ASCII_LF \<and> c \<noteq> LWSHELL_ASCII_BACKSPACE \<Longrightarrow>
     \<exists>w'. input_loop d w = Some w'"
  by (induction d arbitrary: w) (auto simp: input_byte_def)

text \<open>
  C9. Byte classification. A byte from 0x20 to 0x7E is stored at \<open>buff_ptr\<close>, followed by
  the terminator, when a cell beyond it is left for the terminator; with the buffer
  full it changes nothing. A byte outside that range that is not CR, LF or backspace
  changes nothing. The call returns success in each case, and so does a call on any
  non-empty input without CR, LF and backspace.
\<close>

theorem byte_classification:
  "(of_char ch \<in> {0x20 .. 0x7E :: nat} \<and> buff_ptr (shell w) + 1 < length (buff (shell w)) \<longrightarrow>
      lwshell_input (Some [ch]) 1 w =
        Some (lwshellOK,
              w\<lparr>shell := (shell w)
                   \<lparr>buff := (buff (shell w))[buff_ptr (shell w) := ch,
                                               buff_ptr (shell w) + 1 := LWSHELL_ASCII_NULL],
                    buff_ptr := buff_ptr (shell w) + 1\<rparr>\<rparr>)) \<and>
   (of_char ch \<in> {0x20 .. 0x7E :: nat} \<and> length (buff (shell w)) \<le> buff_ptr (shell w) + 1 \<longrightarrow>
      lwshell_input (Some [ch]) 1 w = Some (lwshellOK, w)) \<and>
   (of_char ch \<notin> {0x20 .. 0x7E :: nat} \<and> ch \<noteq> LWSHELL_ASCII_CR \<and> ch \<noteq> LWSHELL_ASCII_LF \<and>
    ch \<noteq> LWSHELL_ASCII_BACKSPACE \<longrightarrow>
      lwshell_input (Some [ch]) 1 w = Some (lwshellOK, w)) \<and>
   (d \<noteq> [] \<and> (\<forall>c\<in>set d. c \<noteq> LWSHELL_ASCII_CR \<and> c \<noteq> LWSHELL_ASCII_LF \<and>
                              c \<noteq> LWSHELL_ASCII_BACKSPACE) \<longrightarrow>
      (\<exists>w'. lwshell_input (Some d) (length d) w = Some (lwshellOK, w')))"
proof (intro conjI impI)
  assume "of_char ch \<in> {0x20 .. 0x7E :: nat} \<and> buff_ptr (shell w) + 1 < length (buff (shell w))"
  then show "lwshell_input (Some [ch]) 1 w =
        Some (lwshellOK,
              w\<lparr>shell := (shell w)
                   \<lparr>buff := (buff (shell w))[buff_ptr (shell w) := ch,
                                               buff_ptr (shell w) + 1 := LWSHELL_ASCII_NULL],
                    buff_ptr := buff_ptr (shell w) + 1\<rparr>\<rparr>)"
    using printable_not_control [of ch]
    by (auto simp: lwshell_input_single input_byte_def LWSHELL_ADD_CH_def)
next
  assume "of_char ch \<in> {0x20 .. 0x7E :: nat} \<and> length (buff (shell w)) \<le> buff_ptr (shell w) + 1"
  then show "lwshell_input (Some [ch]) 1 w = Some (lwshellOK, w)"
    using printable_not_control [of ch]
    by (auto simp: lwshell_input_single input_byte_def LWSHELL_ADD_CH_def)
next
  assume "of_char ch \<notin> {0x20 .. 0x7E :: nat} \<and> ch \<noteq> LWSHELL_ASCII_CR \<and>
    ch \<noteq> LWSHELL_ASCII_LF \<and> ch \<noteq> LWSHELL_ASCII_BACKSPACE"
  then show "lwshell_input (Some [ch]) 1 w = Some (lwshellOK, w)"
    using not_printable [of ch]
    by (simp add: lwshell_input_single input_byte_def)
next
  assume a: "d \<noteq> [] \<and> (\<forall>c\<in>set d. c \<noteq> LWSHELL_ASCII_CR \<and> c \<noteq> LWSHELL_ASCII_LF \<and>
                              c \<noteq> LWSHELL_ASCII_BACKSPACE)"
  then obtain w' where "input_loop d w = Some w'"
    using input_loop_no_parse [of d w] by blast
  with a show "\<exists>w'. lwshell_input (Some d) (length d) w = Some (lwshellOK, w')"
    by (simp add: lwshell_input_all)
qed

theorem byte_classification_witness:
  "lwshell_input (Some ''a'') 1
     \<lparr>cmds = [], cmds_cnt = 0,
      shell = \<lparr>buff = [LWSHELL_ASCII_NULL, LWSHELL_ASCII_NULL], buff_ptr = 0, argc = 0,
               argv = [None]\<rparr>,
      calls = []\<rparr> =
     Some (lwshellOK,
       \<lparr>cmds = [], cmds_cnt = 0,
        shell = \<lparr>buff = [CHR ''a'', LWSHELL_ASCII_NULL], buff_ptr = 1, argc = 0,
                 argv = [None]\<rparr>,
        calls = []\<rparr>) \<and>
   lwshell_input (Some ''b'') 1
     \<lparr>cmds = [], cmds_cnt = 0,
      shell = \<lparr>buff = [CHR ''a'', LWSHELL_ASCII_NULL], buff_ptr = 1, argc = 0,
               argv = [None]\<rparr>,
      calls = []\<rparr> =
     Some (lwshellOK,
       \<lparr>cmds = [], cmds_cnt = 0,
        shell = \<lparr>buff = [CHR ''a'', LWSHELL_ASCII_NULL], buff_ptr = 1, argc = 0,
                 argv = [None]\<rparr>,
        calls = []\<rparr>) \<and>
   lwshell_input (Some [CHR 0x7F]) 1
     \<lparr>cmds = [], cmds_cnt = 0,
      shell = \<lparr>buff = [CHR ''a'', LWSHELL_ASCII_NULL], buff_ptr = 1, argc = 0,
               argv = [None]\<rparr>,
      calls = []\<rparr> =
     Some (lwshellOK,
       \<lparr>cmds = [], cmds_cnt = 0,
        shell = \<lparr>buff = [CHR ''a'', LWSHELL_ASCII_NULL], buff_ptr = 1, argc = 0,
                 argv = [None]\<rparr>,
        calls = []\<rparr>) \<and>
   (\<exists>w'. lwshell_input (Some [CHR 0x7F, CHR ''a'', CHR 0x09])
            (length [CHR 0x7F, CHR ''a'', CHR 0x09])
     \<lparr>cmds = [], cmds_cnt = 0,
      shell = \<lparr>buff = [CHR ''a'', LWSHELL_ASCII_NULL], buff_ptr = 1, argc = 0,
               argv = [None]\<rparr>,
      calls = []\<rparr> = Some (lwshellOK, w'))"
  using byte_classification [of "CHR ''a''"
     "\<lparr>cmds = [], cmds_cnt = 0,
      shell = \<lparr>buff = [LWSHELL_ASCII_NULL, LWSHELL_ASCII_NULL], buff_ptr = 0, argc = 0,
               argv = [None]\<rparr>,
      calls = []\<rparr>" "[CHR 0x7F]"]
    byte_classification [of "CHR ''b''"
     "\<lparr>cmds = [], cmds_cnt = 0,
      shell = \<lparr>buff = [CHR ''a'', LWSHELL_ASCII_NULL], buff_ptr = 1, argc = 0,
               argv = [None]\<rparr>,
      calls = []\<rparr>" "[CHR 0x7F]"]
    byte_classification [of "CHR 0x7F"
     "\<lparr>cmds = [], cmds_cnt = 0,
      shell = \<lparr>buff = [CHR ''a'', LWSHELL_ASCII_NULL], buff_ptr = 1, argc = 0,
               argv = [None]\<rparr>,
      calls = []\<rparr>" "[CHR 0x7F, CHR ''a'', CHR 0x09]"]
  by simp

section \<open>The line buffer between bytes\<close>

lemma list_all_drop_nth:
  assumes "k \<le> length xs"
  shows "list_all P (drop k xs) \<longleftrightarrow> (\<forall>i. k \<le> i \<and> i < length xs \<longrightarrow> P (xs ! i))"
proof
  assume l: "list_all P (drop k xs)"
  show "\<forall>i. k \<le> i \<and> i < length xs \<longrightarrow> P (xs ! i)"
  proof (intro allI impI)
    fix i assume i: "k \<le> i \<and> i < length xs"
    then have "i - k < length (drop k xs)"
      by auto
    with l have "P (drop k xs ! (i - k))"
      by (simp only: list_all_length)
    with i assms show "P (xs ! i)"
      by simp
  qed
next
  assume r: "\<forall>i. k \<le> i \<and> i < length xs \<longrightarrow> P (xs ! i)"
  show "list_all P (drop k xs)"
    unfolding list_all_length
  proof (intro allI impI)
    fix n assume "n < length (drop k xs)"
    then have "k \<le> k + n \<and> k + n < length xs"
      by simp
    with r have "P (xs ! (k + n))"
      by blast
    with assms show "P (drop k xs ! n)"
      by simp
  qed
qed

lemma shell_inv_nth:
  "shell_inv lw \<longleftrightarrow>
     buff_ptr lw < length (buff lw) \<and>
     (\<forall>i<buff_ptr lw. buff lw ! i \<noteq> LWSHELL_ASCII_NULL) \<and>
     (\<forall>i. buff_ptr lw < i \<and> i < length (buff lw) \<longrightarrow> buff lw ! i = LWSHELL_ASCII_NULL) \<and>
     buff lw ! (length (buff lw) - 1) = LWSHELL_ASCII_NULL"
proof (cases "buff_ptr lw < length (buff lw)")
  case True
  then have a: "LWSHELL_ASCII_NULL \<notin> set (take (buff_ptr lw) (buff lw)) \<longleftrightarrow>
        (\<forall>i<buff_ptr lw. buff lw ! i \<noteq> LWSHELL_ASCII_NULL)"
    by (simp add: in_set_conv_nth)
  from True have "buff_ptr lw + 1 \<le> length (buff lw)"
    by simp
  from list_all_drop_nth [OF this]
  have b: "list_all (\<lambda>c. c = LWSHELL_ASCII_NULL) (drop (buff_ptr lw + 1) (buff lw)) \<longleftrightarrow>
        (\<forall>i. buff_ptr lw < i \<and> i < length (buff lw) \<longrightarrow> buff lw ! i = LWSHELL_ASCII_NULL)"
    by (simp add: Suc_le_eq)
  from True have "buff lw \<noteq> []"
    by auto
  then have c: "last (buff lw) = buff lw ! (length (buff lw) - 1)"
    by (rule last_conv_nth)
  show ?thesis
    unfolding shell_inv_def a b c using True by simp
next
  case False
  then show ?thesis
    by (simp add: shell_inv_def)
qed

lemma parse_loop_lengths:
  "parse_loop lw str = Some lw' \<Longrightarrow>
     length (buff lw') = length (buff lw) \<and> length (argv lw') = length (argv lw)"
proof (induction lw str rule: parse_loop.induct)
  case (1 lw str)
  show ?case
    using "1.prems" "1.IH"
    apply (subst (asm) parse_loop.simps[of lw str])
    apply (auto split: if_splits option.splits prod.splits simp: Let_def dest!: quote_loop_bounds word_loop_bounds)
    done
qed

lemma prv_parse_input_frame:
  "prv_parse_input w = Some w' \<Longrightarrow>
     length (buff (shell w')) = length (buff (shell w)) \<and>
     length (argv (shell w')) = length (argv (shell w)) \<and>
     cmds w' = cmds w \<and> cmds_cnt w' = cmds_cnt w"
  by (auto simp: prv_parse_input_def Let_def split: option.splits if_splits dest!: parse_loop_lengths)

lemma shell_inv_reset: "buff lw \<noteq> [] \<Longrightarrow> shell_inv (LWSHELL_RESET_BUFF lw)"
  by (auto simp: shell_inv_nth LWSHELL_RESET_BUFF_def)

lemma shell_inv_add_ch: "shell_inv lw \<Longrightarrow> ch \<noteq> LWSHELL_ASCII_NULL \<Longrightarrow> shell_inv (LWSHELL_ADD_CH lw ch)"
  by (auto simp: shell_inv_nth LWSHELL_ADD_CH_def nth_list_update less_Suc_eq)

lemma is_printable_not_null: "is_printable ch \<Longrightarrow> ch \<noteq> LWSHELL_ASCII_NULL"
  by (auto simp: is_printable_def)

lemma shell_inv_input_byte:
  assumes "shell_inv (shell w)" and "input_byte ch w = Some w'"
  shows "shell_inv (shell w')"
proof -
  consider (eol) "ch = LWSHELL_ASCII_CR \<or> ch = LWSHELL_ASCII_LF"
    | (bs) "ch \<noteq> LWSHELL_ASCII_CR" "ch \<noteq> LWSHELL_ASCII_LF" "ch = LWSHELL_ASCII_BACKSPACE"
    | (pr) "ch \<noteq> LWSHELL_ASCII_CR" "ch \<noteq> LWSHELL_ASCII_LF" "ch \<noteq> LWSHELL_ASCII_BACKSPACE" "is_printable ch"
    | (ign) "ch \<noteq> LWSHELL_ASCII_CR" "ch \<noteq> LWSHELL_ASCII_LF" "ch \<noteq> LWSHELL_ASCII_BACKSPACE" "\<not> is_printable ch"
    by blast
  then show ?thesis
  proof cases
    case eol
    then obtain w1 where p: "prv_parse_input w = Some w1"
      and w': "w' = w1\<lparr>shell := LWSHELL_RESET_BUFF (shell w1)\<rparr>"
      using assms(2) by (auto simp: input_byte_def)
    from assms(1) have "buff (shell w) \<noteq> []"
      by (auto simp: shell_inv_nth)
    with prv_parse_input_frame [OF p] have "buff (shell w1) \<noteq> []"
      by auto
    then show ?thesis
      by (simp add: w' shell_inv_reset)
  next
    case bs
    with assms show ?thesis
      by (auto simp: input_byte_def shell_inv_nth Let_def nth_list_update split: if_splits)
  next
    case pr
    with assms show ?thesis
      by (auto simp: input_byte_def shell_inv_add_ch is_printable_not_null)
  next
    case ign
    with assms show ?thesis
      by (auto simp: input_byte_def)
  qed
qed

lemma shell_inv_startup: "0 < n \<Longrightarrow> shell_inv (shell (startup n m k))"
  by (auto simp: shell_inv_nth startup_def)

section \<open>Backspace\<close>

lemma strlen_desync:
  assumes "p < length b" and "\<forall>i\<le>p. b ! i \<noteq> LWSHELL_ASCII_NULL"
    and "LWSHELL_ASCII_NULL \<in> set b"
  shows "\<exists>l. strlen b = Some l \<and> p < l"
proof -
  let ?n = "length (takeWhile (\<lambda>c. c \<noteq> LWSHELL_ASCII_NULL) b)"
  have "takeWhile (\<lambda>c. c \<noteq> LWSHELL_ASCII_NULL) b \<noteq> b"
    using assms(3) by auto
  then have "?n \<noteq> length b"
    by (metis takeWhile_eq_take take_all order_refl)
  then have "?n < length b"
    using length_takeWhile_le [of "\<lambda>c. c \<noteq> LWSHELL_ASCII_NULL" b] by simp
  then have "\<not> (b ! ?n \<noteq> LWSHELL_ASCII_NULL)"
    by (rule nth_length_takeWhile)
  with assms(2) have "p < ?n"
    by (metis not_le_imp_less)
  with assms(3) show ?thesis
    by (simp add: strlen_def c_string_def)
qed

lemma desync_nth:
  "desync lw \<longleftrightarrow>
     buff_ptr lw + 1 < length (buff lw) \<and>
     (\<forall>i\<le>buff_ptr lw. buff lw ! i \<noteq> LWSHELL_ASCII_NULL) \<and>
     buff lw ! (length (buff lw) - 1) = LWSHELL_ASCII_NULL"
proof (cases "buff_ptr lw + 1 < length (buff lw)")
  case True
  then have a: "LWSHELL_ASCII_NULL \<notin> set (take (buff_ptr lw + 1) (buff lw)) \<longleftrightarrow>
        (\<forall>i\<le>buff_ptr lw. buff lw ! i \<noteq> LWSHELL_ASCII_NULL)"
    by (simp add: in_set_conv_nth less_Suc_eq_le)
  from True have "buff lw \<noteq> []"
    by auto
  then have c: "last (buff lw) = buff lw ! (length (buff lw) - 1)"
    by (rule last_conv_nth)
  show ?thesis
    unfolding desync_def a c using True by simp
next
  case False
  then show ?thesis
    by (simp add: desync_def)
qed

lemma desync_parse:
  assumes "desync (shell w)"
  shows "prv_parse_input w = Some w"
proof -
  from assms have len: "buff_ptr (shell w) < length (buff (shell w))"
    and nz: "\<forall>i\<le>buff_ptr (shell w). buff (shell w) ! i \<noteq> LWSHELL_ASCII_NULL"
    and lst: "buff (shell w) ! (length (buff (shell w)) - 1) = LWSHELL_ASCII_NULL"
    by (simp_all add: desync_nth)
  from len have "length (buff (shell w)) - 1 < length (buff (shell w))"
    by simp
  then have "buff (shell w) ! (length (buff (shell w)) - 1) \<in> set (buff (shell w))"
    by (rule nth_mem)
  with lst have "LWSHELL_ASCII_NULL \<in> set (buff (shell w))"
    by simp
  from strlen_desync [OF len nz this]
  obtain l where "strlen (buff (shell w)) = Some l" "buff_ptr (shell w) < l"
    by blast
  then show ?thesis
    by (simp add: prv_parse_input_def)
qed

lemma backspace_desync:
  assumes "shell_inv (shell w)" and "0 < buff_ptr (shell w)"
  shows "\<exists>w'. input_byte LWSHELL_ASCII_BACKSPACE w = Some w' \<and> desync (shell w') \<and>
           w'\<lparr>shell := LWSHELL_RESET_BUFF (shell w')\<rparr> = w\<lparr>shell := LWSHELL_RESET_BUFF (shell w)\<rparr>"
  using assms
  by (auto simp: input_byte_def shell_inv_nth desync_nth Let_def LWSHELL_RESET_BUFF_def
      nth_list_update)

lemma junk_desync:
  assumes "desync (shell w)" and "\<not> is_printable ch"
    and "ch \<noteq> LWSHELL_ASCII_CR" and "ch \<noteq> LWSHELL_ASCII_LF"
  shows "\<exists>w'. input_byte ch w = Some w' \<and> desync (shell w') \<and>
           w'\<lparr>shell := LWSHELL_RESET_BUFF (shell w')\<rparr> = w\<lparr>shell := LWSHELL_RESET_BUFF (shell w)\<rparr>"
  using assms
  by (auto simp: input_byte_def desync_nth Let_def LWSHELL_RESET_BUFF_def nth_list_update)

lemma junk_loop_desync:
  assumes "desync (shell w)"
    and "\<forall>c\<in>set junk. \<not> is_printable c \<and> c \<noteq> LWSHELL_ASCII_CR \<and> c \<noteq> LWSHELL_ASCII_LF"
  shows "\<exists>w'. input_loop junk w = Some w' \<and> desync (shell w') \<and>
           w'\<lparr>shell := LWSHELL_RESET_BUFF (shell w')\<rparr> = w\<lparr>shell := LWSHELL_RESET_BUFF (shell w)\<rparr>"
  using assms
proof (induction junk arbitrary: w)
  case Nil
  then show ?case by simp
next
  case (Cons c junk)
  then obtain w1 where 1: "input_byte c w = Some w1" "desync (shell w1)"
    "w1\<lparr>shell := LWSHELL_RESET_BUFF (shell w1)\<rparr> = w\<lparr>shell := LWSHELL_RESET_BUFF (shell w)\<rparr>"
    using junk_desync [of w c] by auto
  from Cons.IH [OF 1(2)] Cons.prems(2)
  obtain w2 where "input_loop junk w1 = Some w2" "desync (shell w2)"
    "w2\<lparr>shell := LWSHELL_RESET_BUFF (shell w2)\<rparr> = w1\<lparr>shell := LWSHELL_RESET_BUFF (shell w1)\<rparr>"
    by auto
  with 1 show ?case
    by simp
qed

text \<open>
  C10. A backspace on a non-empty buffer, followed by bytes none of which is appended
  or ends the line (further backspaces, ignored bytes), and then by CR or LF: the call
  succeeds, no handler is invoked, \<open>argc\<close> and \<open>argv\<close> get no token, and the buffer is
  reset. The tokenizer is left at its length guard.
\<close>

theorem backspace_then_terminator_discards:
  assumes "shell_inv (shell w)" and "0 < buff_ptr (shell w)"
    and "\<forall>c\<in>set junk. \<not> is_printable c \<and> c \<noteq> LWSHELL_ASCII_CR \<and> c \<noteq> LWSHELL_ASCII_LF"
    and "t = LWSHELL_ASCII_CR \<or> t = LWSHELL_ASCII_LF"
  shows "lwshell_input (Some (LWSHELL_ASCII_BACKSPACE # junk @ [t])) (length junk + 2) w =
           Some (lwshellOK, w\<lparr>shell := LWSHELL_RESET_BUFF (shell w)\<rparr>)"
proof -
  from backspace_desync [OF assms(1,2)] obtain w1 where
    1: "input_byte LWSHELL_ASCII_BACKSPACE w = Some w1" "desync (shell w1)"
    "w1\<lparr>shell := LWSHELL_RESET_BUFF (shell w1)\<rparr> = w\<lparr>shell := LWSHELL_RESET_BUFF (shell w)\<rparr>"
    by blast
  from junk_loop_desync [OF 1(2) assms(3)] obtain w2 where
    2: "input_loop junk w1 = Some w2" "desync (shell w2)"
    "w2\<lparr>shell := LWSHELL_RESET_BUFF (shell w2)\<rparr> = w1\<lparr>shell := LWSHELL_RESET_BUFF (shell w1)\<rparr>"
    by blast
  have 3: "input_byte t w2 = Some (w2\<lparr>shell := LWSHELL_RESET_BUFF (shell w2)\<rparr>)"
    using assms(4) desync_parse [OF 2(2)] by (auto simp: input_byte_def)
  have "input_loop (LWSHELL_ASCII_BACKSPACE # junk @ [t]) w =
          Some (w\<lparr>shell := LWSHELL_RESET_BUFF (shell w)\<rparr>)"
    using 1 2 3 by (simp add: input_loop_append)
  moreover have "length junk + 2 = length (LWSHELL_ASCII_BACKSPACE # junk @ [t])"
    by simp
  ultimately show ?thesis
    using lwshell_input_all [of "LWSHELL_ASCII_BACKSPACE # junk @ [t]" w]
    by (simp del: length_Cons length_append)
qed

theorem backspace_then_terminator_discards_witness:
  "lwshell_input (Some ''cmd'') 3 (with_cmd ''cm'' 7 (startup 8 4 2)) = Some (lwshellOK, typed_cmd) \<and>
   shell_inv (shell typed_cmd) \<and> 0 < buff_ptr (shell typed_cmd) \<and>
   lwshell_input (Some (LWSHELL_ASCII_BACKSPACE # [] @ [LWSHELL_ASCII_LF])) (length ([] :: char list) + 2)
       typed_cmd =
     Some (lwshellOK, typed_cmd\<lparr>shell := LWSHELL_RESET_BUFF (shell typed_cmd)\<rparr>) \<and>
   calls (typed_cmd\<lparr>shell := LWSHELL_RESET_BUFF (shell typed_cmd)\<rparr>) = [] \<and>
   map_option (calls \<circ> snd)
     (lwshell_input (Some (''cm'' @ [LWSHELL_ASCII_LF])) 3 (with_cmd ''cm'' 7 (startup 8 4 2))) =
     Some [Invoke 7 1 [Some ''cm'']]"
proof -
  have 1: "lwshell_input (Some ''cmd'') 3 (with_cmd ''cm'' 7 (startup 8 4 2)) =
      Some (lwshellOK, typed_cmd)"
    by code_simp
  have 2: "shell_inv (shell typed_cmd)"
    by code_simp
  have 3: "0 < buff_ptr (shell typed_cmd)"
    by code_simp
  have 4: "lwshell_input (Some (LWSHELL_ASCII_BACKSPACE # [] @ [LWSHELL_ASCII_LF]))
       (length ([] :: char list) + 2) typed_cmd =
     Some (lwshellOK, typed_cmd\<lparr>shell := LWSHELL_RESET_BUFF (shell typed_cmd)\<rparr>)"
    by (rule backspace_then_terminator_discards [OF 2 3]) simp_all
  have 5: "calls (typed_cmd\<lparr>shell := LWSHELL_RESET_BUFF (shell typed_cmd)\<rparr>) = []"
    by code_simp
  have 6: "map_option (calls \<circ> snd)
     (lwshell_input (Some (''cm'' @ [LWSHELL_ASCII_LF])) 3 (with_cmd ''cm'' 7 (startup 8 4 2))) =
     Some [Invoke 7 1 [Some ''cm'']]"
    by code_simp
  from 1 2 3 4 5 6 show ?thesis
    by blast
qed

section \<open>The invariant of the data model\<close>

text \<open>
  C3. The invariant of the data model fails after a backspace: from the start state
  with a buffer of eight cells, after the bytes \<open>cmx\<close> the invariant holds, and after
  the backspace that follows the tracked length is 2 while the cell at index 2 still
  holds \<open>x\<close>. What the code does keep (\<open>shell_inv\<close>) holds there.
\<close>

theorem backspace_keeps_erased_byte:
  "map_option (spec_buffer_invariant \<circ> shell \<circ> snd)
      (lwshell_input (Some ''cmx'') 3 (startup 8 4 2)) = Some True \<and>
   map_option (shell \<circ> snd)
      (lwshell_input (Some (''cmx'' @ [LWSHELL_ASCII_BACKSPACE])) 4 (startup 8 4 2)) =
     Some \<lparr>buff = ''cmx'' @ replicate 5 LWSHELL_ASCII_NULL, buff_ptr = 2, argc = 0,
           argv = replicate 4 None\<rparr> \<and>
   map_option (spec_buffer_invariant \<circ> shell \<circ> snd)
      (lwshell_input (Some (''cmx'' @ [LWSHELL_ASCII_BACKSPACE])) 4 (startup 8 4 2)) =
     Some False \<and>
   map_option (shell_inv \<circ> shell \<circ> snd)
      (lwshell_input (Some (''cmx'' @ [LWSHELL_ASCII_BACKSPACE])) 4 (startup 8 4 2)) =
     Some True"
  by code_simp

section \<open>Backspace correction\<close>

lemma input_byte_append:
  assumes "is_printable ch" and "buff_ptr (shell w) + 1 < length (buff (shell w))"
  shows "input_byte ch w =
           Some (w\<lparr>shell := (shell w)
                   \<lparr>buff := (buff (shell w))[buff_ptr (shell w) := ch,
                                               buff_ptr (shell w) + 1 := LWSHELL_ASCII_NULL],
                    buff_ptr := buff_ptr (shell w) + 1\<rparr>\<rparr>)"
proof -
  from assms(1) have "of_char ch \<in> {0x20 .. 0x7E :: nat}"
    by (auto simp: is_printable_def)
  from printable_not_control [OF this] assms(2) show ?thesis
    by (auto simp: input_byte_def LWSHELL_ADD_CH_def)
qed

lemma input_byte_backspace:
  assumes "0 < buff_ptr (shell w)" and "buff_ptr (shell w) < length (buff (shell w))"
  shows "input_byte LWSHELL_ASCII_BACKSPACE w =
           Some (w\<lparr>shell := (shell w)
                   \<lparr>buff := (buff (shell w))[buff_ptr (shell w) := LWSHELL_ASCII_NULL],
                    buff_ptr := buff_ptr (shell w) - 1\<rparr>\<rparr>)"
  using assms by (simp add: input_byte_def Let_def)

lemma printable_letters:
  "is_printable CHR ''c''" "is_printable CHR ''m''" "is_printable CHR ''x''" "is_printable CHR ''d''"
  by (simp_all add: is_printable_def)

lemma cmx_backspace_d:
  assumes "buff_ptr (shell w) + 3 < length (buff (shell w))"
  shows "input_loop (''cmx'' @ [LWSHELL_ASCII_BACKSPACE] @ ''d'') w = input_loop ''cmd'' w"
  using assms
  apply (simp add: input_byte_append input_byte_backspace printable_letters)
  apply (simp add: list_eq_iff_nth_eq nth_list_update)
  done

text \<open>
  C7. Backspace correction, from any state with room for three more bytes and the
  terminator: the bytes \<open>cmx\<close>, then a backspace, then \<open>d\<close> and LF, fed in three calls,
  end in the same state, with the same handler invocations, as \<open>cmd\<close> and LF in one.
\<close>

theorem backspace_correction:
  assumes "buff_ptr (shell w) + 3 < length (buff (shell w))"
  shows "feed_chunks [''cmx'', [LWSHELL_ASCII_BACKSPACE], ''d'' @ [LWSHELL_ASCII_LF]] w =
         feed_chunks [''cmd'' @ [LWSHELL_ASCII_LF]] w"
proof -
  have "feed_chunks [''cmx'', [LWSHELL_ASCII_BACKSPACE], ''d'' @ [LWSHELL_ASCII_LF]] w =
        input_loop ((''cmx'' @ [LWSHELL_ASCII_BACKSPACE] @ ''d'') @ [LWSHELL_ASCII_LF]) w"
    by (subst feed_chunks_input_loop) simp_all
  also have "\<dots> = input_loop (''cmd'' @ [LWSHELL_ASCII_LF]) w"
    unfolding input_loop_append [of _ "[LWSHELL_ASCII_LF]"] cmx_backspace_d [OF assms] ..
  also have "\<dots> = feed_chunks [''cmd'' @ [LWSHELL_ASCII_LF]] w"
    by (subst feed_chunks_input_loop) simp_all
  finally show ?thesis .
qed

theorem backspace_correction_witness:
  "buff_ptr (shell (with_cmd ''cmd'' 7 (startup 8 4 2))) + 3 <
     length (buff (shell (with_cmd ''cmd'' 7 (startup 8 4 2)))) \<and>
   feed_chunks [''cmx'', [LWSHELL_ASCII_BACKSPACE], ''d'' @ [LWSHELL_ASCII_LF]]
       (with_cmd ''cmd'' 7 (startup 8 4 2)) =
     feed_chunks [''cmd'' @ [LWSHELL_ASCII_LF]] (with_cmd ''cmd'' 7 (startup 8 4 2)) \<and>
   map_option calls (feed_chunks [''cmd'' @ [LWSHELL_ASCII_LF]] (with_cmd ''cmd'' 7 (startup 8 4 2))) =
     Some [Invoke 7 1 [Some ''cmd'']]"
proof -
  have 1: "buff_ptr (shell (with_cmd ''cmd'' 7 (startup 8 4 2))) + 3 <
     length (buff (shell (with_cmd ''cmd'' 7 (startup 8 4 2))))"
    by code_simp
  have 2: "map_option calls
      (feed_chunks [''cmd'' @ [LWSHELL_ASCII_LF]] (with_cmd ''cmd'' 7 (startup 8 4 2))) =
     Some [Invoke 7 1 [Some ''cmd'']]"
    by code_simp
  from 1 backspace_correction [OF 1] 2 show ?thesis
    by blast
qed

section \<open>Dispatch\<close>

lemma registry_ok_startup: "registry_ok (startup n m k)"
  by (simp add: registry_ok_def registered_def startup_def)

lemma registry_ok_register:
  "registry_ok w \<Longrightarrow> registry_ok (snd (lwshell_register_cmd cmd_name cmd_fn dsc w))"
  by (auto simp: registry_ok_def registered_def lwshell_register_cmd_def
      take_Suc_conv_app_nth)

lemma registry_ok_names:
  "registry_ok w \<Longrightarrow>
     cmds_cnt w \<le> length (cmds w) \<and> (\<forall>c\<in>set (registered w). name c \<noteq> None)"
  by (auto simp: registry_ok_def list_all_iff)

lemma registry_ok_input_byte:
  assumes "registry_ok w" and "input_byte ch w = Some w'"
  shows "registry_ok w'"
proof -
  have "cmds w' = cmds w \<and> cmds_cnt w' = cmds_cnt w"
    using assms(2) prv_parse_input_frame [of w]
    by (auto simp: input_byte_def Let_def split: if_splits)
  with assms(1) show ?thesis
    by (simp add: registry_ok_def registered_def)
qed

lemma dispatch_loop_filter:
  assumes "cnt \<le> length cs" and "\<forall>c\<in>set (take cnt cs). name c \<noteq> None"
    and "argv lw \<noteq> []" and "arg_value (buff lw) (argv lw ! 0) = Some a0"
    and "map fn (filter (\<lambda>c. name c = Some a0) (drop i (take cnt cs))) = map Some fs"
  shows "dispatch_loop cs cnt lw i =
           Some (map (\<lambda>f. Invoke f (argc lw) (map (arg_value (buff lw)) (take (argc lw) (argv lw)))) fs)"
  using assms
proof (induction cs cnt lw i arbitrary: fs rule: dispatch_loop.induct)
  case (1 cs cnt lw i)
  show ?case
  proof (cases "i < cnt")
    case False
    with "1.prems"(5) have "fs = []"
      by simp
    with False show ?thesis
      by (simp add: dispatch_loop.simps [of cs cnt lw i])
  next
    case True
    with "1.prems"(1) have i: "i < length (take cnt cs)" and i': "\<not> length cs \<le> i"
      by simp_all
    from i have split: "drop i (take cnt cs) = cs ! i # drop (i + 1) (take cnt cs)"
      by (simp add: Cons_nth_drop_Suc [symmetric])
    from i "1.prems"(2) have "name (cs ! i) \<noteq> None"
      by (metis nth_mem nth_take True)
    then obtain n where n: "name (cs ! i) = Some n"
      by blast
    show ?thesis
    proof (cases "n = a0")
      case False
      with n "1.prems"(5) split
      have "map fn (filter (\<lambda>c. name c = Some a0) (drop (i + 1) (take cnt cs))) = map Some fs"
        by simp
      have "dispatch_loop cs cnt lw (i + 1) =
           Some (map (\<lambda>f. Invoke f (argc lw) (map (arg_value (buff lw)) (take (argc lw) (argv lw)))) fs)"
      proof (rule "1.IH"(2))
        show "i < cnt" by fact
        show "\<not> (length cs \<le> i \<or> argv lw = [])"
          using i' "1.prems"(3) by simp
        show "(name (cs ! i), arg_value (buff lw) (argv lw ! 0)) =
              (name (cs ! i), arg_value (buff lw) (argv lw ! 0))" ..
        show "name (cs ! i) = Some n" by fact
        show "arg_value (buff lw) (argv lw ! 0) = Some a0" by fact
        show "n \<noteq> a0" by fact
        show "map fn (filter (\<lambda>c. name c = Some a0) (drop (i + 1) (take cnt cs))) = map Some fs"
          by fact
      qed (use "1.prems" in simp_all)
      with True i' n False "1.prems"(3,4) show ?thesis
        by (simp add: dispatch_loop.simps [of cs cnt lw i])
    next
      case eq: True
      with n "1.prems"(5) split obtain f fs' where f: "fn (cs ! i) = Some f" "fs = f # fs'"
        and rest: "map fn (filter (\<lambda>c. name c = Some a0) (drop (i + 1) (take cnt cs))) = map Some fs'"
        by (cases fs) auto
      have "dispatch_loop cs cnt lw (i + 1) =
           Some (map (\<lambda>f. Invoke f (argc lw) (map (arg_value (buff lw)) (take (argc lw) (argv lw)))) fs')"
      proof (rule "1.IH"(1))
        show "i < cnt" by fact
        show "\<not> (length cs \<le> i \<or> argv lw = [])"
          using i' "1.prems"(3) by simp
        show "(name (cs ! i), arg_value (buff lw) (argv lw ! 0)) =
              (name (cs ! i), arg_value (buff lw) (argv lw ! 0))" ..
        show "name (cs ! i) = Some n" by fact
        show "arg_value (buff lw) (argv lw ! 0) = Some a0" by fact
        show "n = a0" by fact
        show "fn (cs ! i) = Some f" by fact
        show "map fn (filter (\<lambda>c. name c = Some a0) (drop (i + 1) (take cnt cs))) = map Some fs'"
          by fact
      qed (use "1.prems" in simp_all)
      with True i' n eq f "1.prems"(3,4) show ?thesis
        by (simp add: dispatch_loop.simps [of cs cnt lw i])
    qed
  qed
qed

text \<open>
  C2. All-matches dispatch. When the line passes the length guard and the tokenizer
  leaves at least one token, with a non-empty table, \<open>prv_parse_input\<close> invokes, in
  table order, the handler of every registered entry whose name equals the first token
  byte for byte, each with the token count and the tokens, and no other handler:
  \<open>fs\<close> is the list of the handlers of the matching entries, in registration order.
\<close>

theorem all_matches_dispatch:
  assumes "strlen (buff (shell w)) = Some (buff_ptr (shell w))" and "0 < buff_ptr (shell w)"
    and "argv (shell w) \<noteq> []"
    and "parse_loop ((shell w)\<lparr>argc := 0, argv := (argv (shell w))[0 := Some 0]\<rparr>) 0 = Some lw'"
    and "0 < argc lw'" and "0 < cmds_cnt w"
    and "arg_value (buff lw') (argv lw' ! 0) = Some a0"
    and "cmds_cnt w \<le> length (cmds w)" and "\<forall>c\<in>set (registered w). name c \<noteq> None"
    and "map fn (filter (\<lambda>c. name c = Some a0) (registered w)) = map Some fs"
  shows "prv_parse_input w =
           Some (w\<lparr>shell := lw',
                   calls := calls w @
                     map (\<lambda>f. Invoke f (argc lw')
                                 (map (arg_value (buff lw')) (take (argc lw') (argv lw')))) fs\<rparr>)"
proof -
  from parse_loop_lengths [OF assms(4)] assms(3) have "argv lw' \<noteq> []"
    by auto
  with assms(7-10)
  have "dispatch_loop (cmds w) (cmds_cnt w) lw' 0 =
          Some (map (\<lambda>f. Invoke f (argc lw')
                      (map (arg_value (buff lw')) (take (argc lw') (argv lw')))) fs)"
    by (intro dispatch_loop_filter) (simp_all add: registered_def)
  with assms(1-6) show ?thesis
    by (simp add: prv_parse_input_def)
qed

theorem all_matches_dispatch_witness:
  "prv_parse_input typed_cmd_twice =
     Some (typed_cmd_twice
        \<lparr>shell := \<lparr>buff = ''cmd'' @ replicate 5 LWSHELL_ASCII_NULL, buff_ptr = 3, argc = 1,
                    argv = [Some 0, None, None, None]\<rparr>,
         calls := [Invoke 7 1 [Some ''cmd''], Invoke 8 1 [Some ''cmd'']]\<rparr>) \<and>
   lwshell_input (Some ''cmd'') 3 (with_cmd ''cmd'' 8 (with_cmd ''cmd'' 7 (startup 8 4 2))) =
     Some (lwshellOK, typed_cmd_twice) \<and>
   map_option (calls \<circ> snd)
     (lwshell_input (Some (''cmd'' @ [LWSHELL_ASCII_LF])) 4
        (with_cmd ''cmd'' 8 (with_cmd ''cmd'' 7 (startup 8 4 2)))) =
     Some [Invoke 7 1 [Some ''cmd''], Invoke 8 1 [Some ''cmd'']] \<and>
   map_option (calls \<circ> snd)
     (lwshell_input (Some (''CMD'' @ [LWSHELL_ASCII_LF])) 4
        (with_cmd ''cmd'' 8 (with_cmd ''cmd'' 7 (startup 8 4 2)))) =
     Some []"
proof -
  have 1: "strlen (buff (shell typed_cmd_twice)) = Some (buff_ptr (shell typed_cmd_twice))"
    by code_simp
  have 2: "0 < buff_ptr (shell typed_cmd_twice)"
    by code_simp
  have 3: "argv (shell typed_cmd_twice) \<noteq> []"
    by code_simp
  have 4: "parse_loop ((shell typed_cmd_twice)
             \<lparr>argc := 0, argv := (argv (shell typed_cmd_twice))[0 := Some 0]\<rparr>) 0 =
           Some \<lparr>buff = ''cmd'' @ replicate 5 LWSHELL_ASCII_NULL, buff_ptr = 3, argc = 1,
                  argv = [Some 0, None, None, None]\<rparr>"
    by code_simp
  have 5: "0 < argc \<lparr>buff = ''cmd'' @ replicate 5 LWSHELL_ASCII_NULL, buff_ptr = 3, argc = 1,
                  argv = [Some 0, None, None, None]\<rparr>"
    by simp
  have 6: "0 < cmds_cnt typed_cmd_twice"
    by code_simp
  have 7: "arg_value (buff \<lparr>buff = ''cmd'' @ replicate 5 LWSHELL_ASCII_NULL, buff_ptr = 3, argc = 1,
                  argv = [Some 0, None, None, None]\<rparr>)
             (argv \<lparr>buff = ''cmd'' @ replicate 5 LWSHELL_ASCII_NULL, buff_ptr = 3, argc = 1,
                  argv = [Some 0, None, None, None]\<rparr> ! 0) = Some ''cmd''"
    by code_simp
  have 8: "cmds_cnt typed_cmd_twice \<le> length (cmds typed_cmd_twice)"
    by code_simp
  have 9: "\<forall>c\<in>set (registered typed_cmd_twice). name c \<noteq> None"
    by code_simp
  have 10: "map fn (filter (\<lambda>c. name c = Some ''cmd'') (registered typed_cmd_twice)) =
            map Some [7, 8]"
    by code_simp
  have "prv_parse_input typed_cmd_twice =
     Some (typed_cmd_twice
        \<lparr>shell := \<lparr>buff = ''cmd'' @ replicate 5 LWSHELL_ASCII_NULL, buff_ptr = 3, argc = 1,
                    argv = [Some 0, None, None, None]\<rparr>,
         calls := [Invoke 7 1 [Some ''cmd''], Invoke 8 1 [Some ''cmd'']]\<rparr>)"
    using all_matches_dispatch [OF 1 2 3 4 5 6 7 8 9 10]
    by (simp add: typed_cmd_twice_def arg_value_def c_string_def)
  moreover have "lwshell_input (Some ''cmd'') 3
      (with_cmd ''cmd'' 8 (with_cmd ''cmd'' 7 (startup 8 4 2))) =
     Some (lwshellOK, typed_cmd_twice)"
    by code_simp
  moreover have "map_option (calls \<circ> snd)
     (lwshell_input (Some (''cmd'' @ [LWSHELL_ASCII_LF])) 4
        (with_cmd ''cmd'' 8 (with_cmd ''cmd'' 7 (startup 8 4 2)))) =
     Some [Invoke 7 1 [Some ''cmd''], Invoke 8 1 [Some ''cmd'']]"
    by code_simp
  moreover have "map_option (calls \<circ> snd)
     (lwshell_input (Some (''CMD'' @ [LWSHELL_ASCII_LF])) 4
        (with_cmd ''cmd'' 8 (with_cmd ''cmd'' 7 (startup 8 4 2)))) =
     Some []"
    by code_simp
  ultimately show ?thesis
    by blast
qed

section \<open>A line typed into a zeroed buffer\<close>

lemma typed_buffer_step:
  assumes "length p + 1 < n"
  shows "(p @ replicate (n - length p) LWSHELL_ASCII_NULL)[length p := c, length p + 1 := LWSHELL_ASCII_NULL] =
         (p @ [c]) @ replicate (n - length (p @ [c])) LWSHELL_ASCII_NULL"
proof -
  from assms obtain k where k: "n - length p = Suc (Suc k)"
    by (metis Suc_diff_Suc add.commute add_lessD1 less_diff_conv plus_1_eq_Suc)
  then have "n - length (p @ [c]) = Suc k"
    by simp
  with k show ?thesis
    by (simp add: list_update_append)
qed

lemma type_printable_from:
  assumes "\<forall>c\<in>set s. is_printable c"
    and "buff (shell w) = p @ replicate (n - length p) LWSHELL_ASCII_NULL"
    and "buff_ptr (shell w) = length p" and "length p + length s < n"
  shows "input_loop s w =
           Some (w\<lparr>shell := (shell w)
                   \<lparr>buff := (p @ s) @ replicate (n - length (p @ s)) LWSHELL_ASCII_NULL,
                    buff_ptr := length (p @ s)\<rparr>\<rparr>)"
  using assms
proof (induction s arbitrary: w p)
  case Nil
  then show ?case
    by simp
next
  case (Cons c s)
  let ?w1 = "w\<lparr>shell := (shell w)
                   \<lparr>buff := (p @ [c]) @ replicate (n - length (p @ [c])) LWSHELL_ASCII_NULL,
                    buff_ptr := length (p @ [c])\<rparr>\<rparr>"
  from Cons.prems have len: "buff_ptr (shell w) + 1 < length (buff (shell w))"
    by simp
  from Cons.prems have "is_printable c"
    by simp
  from input_byte_append [OF this len] Cons.prems(2,3,4) typed_buffer_step [of p n c]
  have 1: "input_byte c w = Some ?w1"
    by simp
  have "input_loop s ?w1 =
          Some (?w1\<lparr>shell := (shell ?w1)
                   \<lparr>buff := ((p @ [c]) @ s) @ replicate (n - length ((p @ [c]) @ s)) LWSHELL_ASCII_NULL,
                    buff_ptr := length ((p @ [c]) @ s)\<rparr>\<rparr>)"
    using Cons.prems by (intro Cons.IH) simp_all
  with 1 show ?case
    by simp
qed

lemma type_printable:
  assumes "fresh n w" and "\<forall>c\<in>set s. is_printable c" and "length s < n"
  shows "input_loop s w =
           Some (w\<lparr>shell := (shell w)
                   \<lparr>buff := s @ replicate (n - length s) LWSHELL_ASCII_NULL,
                    buff_ptr := length s\<rparr>\<rparr>)"
  using type_printable_from [of s w "[]" n] assms
  by (simp add: fresh_def)

lemma strlen_typed:
  assumes "\<forall>c\<in>set s. is_printable c" and "length s < n"
  shows "strlen (s @ replicate (n - length s) LWSHELL_ASCII_NULL) = Some (length s)"
proof -
  from assms(2) obtain k where k: "n - length s = Suc k"
    by (metis Suc_diff_Suc)
  from assms(1) have "\<forall>c\<in>set s. c \<noteq> LWSHELL_ASCII_NULL"
    using is_printable_not_null by blast
  then show ?thesis
    by (simp add: strlen_def c_string_def k)
qed

lemma parse_empty:
  assumes "shell_inv (shell w)" and "buff_ptr (shell w) = 0"
  shows "prv_parse_input w = Some w"
proof -
  from assms(1) have "buff (shell w) \<noteq> []" and "last (buff (shell w)) = LWSHELL_ASCII_NULL"
    by (auto simp: shell_inv_def)
  then have "LWSHELL_ASCII_NULL \<in> set (buff (shell w))"
    by (metis last_in_set)
  then obtain l where "strlen (buff (shell w)) = Some l"
    by (simp add: strlen_def c_string_def)
  with assms(2) show ?thesis
    by (simp add: prv_parse_input_def Let_def)
qed

lemma parse_dispatch:
  assumes "strlen (buff (shell w)) = Some (buff_ptr (shell w))" and "0 < buff_ptr (shell w)"
    and "argv (shell w) \<noteq> []"
    and "parse_loop ((shell w)\<lparr>argc := 0, argv := (argv (shell w))[0 := Some 0]\<rparr>) 0 = Some lw'"
    and "0 < argc lw'"
    and "arg_value (buff lw') (argv lw' ! 0) = Some a0"
    and "cmds_cnt w \<le> length (cmds w)" and "\<forall>c\<in>set (registered w). name c \<noteq> None"
    and "map fn (filter (\<lambda>c. name c = Some a0) (registered w)) = map Some fs"
  shows "prv_parse_input w =
           Some (w\<lparr>shell := lw',
                   calls := calls w @
                     map (\<lambda>f. Invoke f (argc lw')
                                 (map (arg_value (buff lw')) (take (argc lw') (argv lw')))) fs\<rparr>)"
proof (cases "0 < cmds_cnt w")
  case True
  from parse_loop_lengths [OF assms(4)] assms(3) have "argv lw' \<noteq> []"
    by auto
  with assms(6-9)
  have "dispatch_loop (cmds w) (cmds_cnt w) lw' 0 =
          Some (map (\<lambda>f. Invoke f (argc lw')
                      (map (arg_value (buff lw')) (take (argc lw') (argv lw')))) fs)"
    by (intro dispatch_loop_filter) (simp_all add: registered_def)
  with True assms(1-5) show ?thesis
    by (simp add: prv_parse_input_def)
next
  case False
  with assms(9) have "fs = []"
    by (simp add: registered_def)
  with False assms(1-5) show ?thesis
    by (simp add: prv_parse_input_def)
qed

lemma parse_loop_cmd:
  assumes "argv lw \<noteq> []"
    and "buff lw = ''cmd'' @ LWSHELL_ASCII_NULL # LWSHELL_ASCII_NULL # t"
  shows "parse_loop (lw\<lparr>argc := 0, argv := (argv lw)[0 := Some 0]\<rparr>) 0 =
         Some (lw\<lparr>argc := 1, argv := (argv lw)[0 := Some 0]\<rparr>)"
proof (cases "length (argv lw) = Suc 0")
  case True
  with assms(2) show ?thesis
    by (cases lw) (simp add: parse_loop.simps skip_spaces.simps word_loop.simps Let_def)
next
  case False
  with assms(1) have "Suc 0 \<noteq> length (argv lw)"
    by auto
  with assms show ?thesis
    by (cases lw) (simp add: parse_loop.simps skip_spaces.simps word_loop.simps Let_def)
qed

lemma cmd_line:
  assumes "fresh n w" and "5 \<le> n" and "argv (shell w) \<noteq> []"
    and "cmds_cnt w \<le> length (cmds w)" and "\<forall>c\<in>set (registered w). name c \<noteq> None"
    and "map fn (filter (\<lambda>c. name c = Some ''cmd'') (registered w)) = map Some fs"
    and "t = LWSHELL_ASCII_CR \<or> t = LWSHELL_ASCII_LF"
  shows "input_loop (''cmd'' @ [t]) w =
           Some (w\<lparr>shell := LWSHELL_RESET_BUFF ((shell w)\<lparr>argc := 1\<rparr>),
                   calls := calls w @ map (\<lambda>f. Invoke f 1 [Some ''cmd'']) fs\<rparr>)"
proof -
  let ?w1 = "w\<lparr>shell := (shell w)
                   \<lparr>buff := ''cmd'' @ replicate (n - length ''cmd'') LWSHELL_ASCII_NULL,
                    buff_ptr := length ''cmd''\<rparr>\<rparr>"
  let ?lw' = "(shell ?w1)\<lparr>argc := 1, argv := (argv (shell ?w1))[0 := Some 0]\<rparr>"
  define k where "k = n - 5"
  with assms(2) have k: "n - Suc (Suc (Suc 0)) = Suc (Suc k)"
    by simp
  have typed: "input_loop ''cmd'' w = Some ?w1"
    using assms(1,2) by (intro type_printable) (simp_all add: is_printable_def)
  have len: "strlen (buff (shell ?w1)) = Some (buff_ptr (shell ?w1))"
    using strlen_typed [of "''cmd''" n] assms(2) by (simp add: is_printable_def)
  have tok: "parse_loop ((shell ?w1)\<lparr>argc := 0, argv := (argv (shell ?w1))[0 := Some 0]\<rparr>) 0 =
          Some ?lw'"
    using assms(3) by (intro parse_loop_cmd [where t = "replicate k LWSHELL_ASCII_NULL"]) (simp_all add: k)
  have a0: "arg_value (buff ?lw') (argv ?lw' ! 0) = Some ''cmd''"
    using assms(3) by (simp add: arg_value_def c_string_def k)
  have args: "map (arg_value (buff ?lw')) (take (argc ?lw') (argv ?lw')) = [Some ''cmd'']"
    using assms(3) by (cases "argv (shell w)") (simp_all add: arg_value_def c_string_def k)
  have "prv_parse_input ?w1 =
          Some (?w1\<lparr>shell := ?lw',
                   calls := calls ?w1 @
                     map (\<lambda>f. Invoke f (argc ?lw')
                                 (map (arg_value (buff ?lw')) (take (argc ?lw') (argv ?lw')))) fs\<rparr>)"
    using assms(3-6) by (intro parse_dispatch [OF len _ _ tok _ a0]) (simp_all add: registered_def)
  then have parsed: "prv_parse_input ?w1 =
          Some (?w1\<lparr>shell := ?lw', calls := calls w @ map (\<lambda>f. Invoke f 1 [Some ''cmd'']) fs\<rparr>)"
    unfolding args by simp
  have nn: "Suc (Suc (Suc (n - Suc (Suc (Suc 0))))) = n"
    using assms(2) by simp
  have reset: "LWSHELL_RESET_BUFF ?lw' = LWSHELL_RESET_BUFF ((shell w)\<lparr>argc := 1\<rparr>)"
    using assms(1) by (simp add: LWSHELL_RESET_BUFF_def fresh_def nn)
  have "input_byte t ?w1 =
          map_option (\<lambda>w'. w'\<lparr>shell := LWSHELL_RESET_BUFF (shell w')\<rparr>) (prv_parse_input ?w1)"
    using assms(7) by (auto simp: input_byte_def)
  also have "\<dots> = Some (w\<lparr>shell := LWSHELL_RESET_BUFF ((shell w)\<lparr>argc := 1\<rparr>),
              calls := calls w @ map (\<lambda>f. Invoke f 1 [Some ''cmd'']) fs\<rparr>)"
    unfolding parsed using reset by simp
  finally have step: "input_byte t ?w1 =
      Some (w\<lparr>shell := LWSHELL_RESET_BUFF ((shell w)\<lparr>argc := 1\<rparr>),
              calls := calls w @ map (\<lambda>f. Invoke f 1 [Some ''cmd'']) fs\<rparr>)" .
  have "input_loop (''cmd'' @ [t]) w = input_loop [t] ?w1"
    by (simp only: input_loop_append typed option.case)
  with step show ?thesis
    by simp
qed

lemma terminator_on_empty:
  assumes "shell_inv (shell w)" and "buff_ptr (shell w) = 0"
    and "t = LWSHELL_ASCII_CR \<or> t = LWSHELL_ASCII_LF"
  shows "input_byte t w = Some (w\<lparr>shell := LWSHELL_RESET_BUFF (shell w)\<rparr>)"
  using assms(3) parse_empty [OF assms(1,2)] by (auto simp: input_byte_def)

lemma lwshell_input_done:
  assumes "input_loop d w = Some w'" and "d \<noteq> []" and "len = length d"
  shows "lwshell_input (Some d) len w = Some (lwshellOK, w')"
  using assms by (simp add: lwshell_input_def)

lemma reset_twice: "LWSHELL_RESET_BUFF (LWSHELL_RESET_BUFF lw) = LWSHELL_RESET_BUFF lw"
  by (simp add: LWSHELL_RESET_BUFF_def)

text \<open>
  C8. A line terminator on an empty buffer invokes no handler: the call returns
  success and only resets the buffer. So \<open>cmd\<close>, CR, LF typed into a zeroed buffer of
  at least five cells dispatches once, to the handlers \<open>fs\<close> of the entries named
  \<open>cmd\<close>, and ends in the state that \<open>cmd\<close>, CR alone ends in.
\<close>

theorem empty_line_no_dispatch:
  "(shell_inv (shell w) \<and> buff_ptr (shell w) = 0 \<and>
    (t = LWSHELL_ASCII_CR \<or> t = LWSHELL_ASCII_LF) \<longrightarrow>
      lwshell_input (Some [t]) 1 w =
        Some (lwshellOK, w\<lparr>shell := LWSHELL_RESET_BUFF (shell w)\<rparr>)) \<and>
   (fresh n w \<and> 5 \<le> n \<and> argv (shell w) \<noteq> [] \<and> cmds_cnt w \<le> length (cmds w) \<and>
    (\<forall>c\<in>set (registered w). name c \<noteq> None) \<and>
    map fn (filter (\<lambda>c. name c = Some ''cmd'') (registered w)) = map Some fs \<longrightarrow>
      lwshell_input (Some (''cmd'' @ [LWSHELL_ASCII_CR, LWSHELL_ASCII_LF])) 5 w =
        Some (lwshellOK,
              w\<lparr>shell := LWSHELL_RESET_BUFF ((shell w)\<lparr>argc := 1\<rparr>),
                calls := calls w @ map (\<lambda>f. Invoke f 1 [Some ''cmd'']) fs\<rparr>) \<and>
      lwshell_input (Some (''cmd'' @ [LWSHELL_ASCII_CR])) 4 w =
        Some (lwshellOK,
              w\<lparr>shell := LWSHELL_RESET_BUFF ((shell w)\<lparr>argc := 1\<rparr>),
                calls := calls w @ map (\<lambda>f. Invoke f 1 [Some ''cmd'']) fs\<rparr>))"
proof (intro conjI impI)
  assume "shell_inv (shell w) \<and> buff_ptr (shell w) = 0 \<and>
    (t = LWSHELL_ASCII_CR \<or> t = LWSHELL_ASCII_LF)"
  then have "input_byte t w = Some (w\<lparr>shell := LWSHELL_RESET_BUFF (shell w)\<rparr>)"
    by (intro terminator_on_empty) simp_all
  then show "lwshell_input (Some [t]) 1 w =
        Some (lwshellOK, w\<lparr>shell := LWSHELL_RESET_BUFF (shell w)\<rparr>)"
    by (simp add: lwshell_input_single)
next
  let ?w2 = "w\<lparr>shell := LWSHELL_RESET_BUFF ((shell w)\<lparr>argc := 1\<rparr>),
                calls := calls w @ map (\<lambda>f. Invoke f 1 [Some ''cmd'']) fs\<rparr>"
  assume a: "fresh n w \<and> 5 \<le> n \<and> argv (shell w) \<noteq> [] \<and> cmds_cnt w \<le> length (cmds w) \<and>
    (\<forall>c\<in>set (registered w). name c \<noteq> None) \<and>
    map fn (filter (\<lambda>c. name c = Some ''cmd'') (registered w)) = map Some fs"
  then have cr: "input_loop (''cmd'' @ [LWSHELL_ASCII_CR]) w = Some ?w2"
    by (intro cmd_line [of n]) simp_all
  from a have "shell_inv (shell ?w2)" and "buff_ptr (shell ?w2) = 0"
    by (simp_all add: shell_inv_reset fresh_def, simp add: LWSHELL_RESET_BUFF_def)
  then have "input_byte LWSHELL_ASCII_LF ?w2 = Some (?w2\<lparr>shell := LWSHELL_RESET_BUFF (shell ?w2)\<rparr>)"
    by (intro terminator_on_empty) simp_all
  then have lf: "input_byte LWSHELL_ASCII_LF ?w2 = Some ?w2"
    by (simp add: reset_twice)
  have "input_loop ((''cmd'' @ [LWSHELL_ASCII_CR]) @ [LWSHELL_ASCII_LF]) w =
          input_loop [LWSHELL_ASCII_LF] ?w2"
    by (simp only: input_loop_append [of "''cmd'' @ [LWSHELL_ASCII_CR]"] cr option.case)
  with lf have crlf: "input_loop (''cmd'' @ [LWSHELL_ASCII_CR, LWSHELL_ASCII_LF]) w = Some ?w2"
    by simp
  show "lwshell_input (Some (''cmd'' @ [LWSHELL_ASCII_CR, LWSHELL_ASCII_LF])) 5 w =
        Some (lwshellOK, ?w2)"
    by (rule lwshell_input_done [OF crlf]) simp_all
  show "lwshell_input (Some (''cmd'' @ [LWSHELL_ASCII_CR])) 4 w = Some (lwshellOK, ?w2)"
    by (rule lwshell_input_done [OF cr]) simp_all
qed

theorem empty_line_no_dispatch_witness:
  "lwshell_input (Some [LWSHELL_ASCII_LF]) 1 (with_cmd ''cmd'' 7 (startup 8 4 2)) =
     Some (lwshellOK,
           (with_cmd ''cmd'' 7 (startup 8 4 2))
             \<lparr>shell := LWSHELL_RESET_BUFF (shell (with_cmd ''cmd'' 7 (startup 8 4 2)))\<rparr>) \<and>
   calls (with_cmd ''cmd'' 7 (startup 8 4 2)) = [] \<and>
   lwshell_input (Some (''cmd'' @ [LWSHELL_ASCII_CR, LWSHELL_ASCII_LF])) 5
       (with_cmd ''cmd'' 7 (startup 8 4 2)) =
     Some (lwshellOK,
           (with_cmd ''cmd'' 7 (startup 8 4 2))
             \<lparr>shell := LWSHELL_RESET_BUFF ((shell (with_cmd ''cmd'' 7 (startup 8 4 2)))\<lparr>argc := 1\<rparr>),
              calls := calls (with_cmd ''cmd'' 7 (startup 8 4 2)) @
                         map (\<lambda>f. Invoke f 1 [Some ''cmd'']) [7]\<rparr>)"
proof -
  let ?w = "with_cmd ''cmd'' 7 (startup 8 4 2)"
  have 1: "shell_inv (shell ?w) \<and> buff_ptr (shell ?w) = 0 \<and>
      (LWSHELL_ASCII_LF = LWSHELL_ASCII_CR \<or> LWSHELL_ASCII_LF = LWSHELL_ASCII_LF)"
    by code_simp
  have 2: "fresh 8 ?w \<and> (5 :: nat) \<le> 8 \<and> argv (shell ?w) \<noteq> [] \<and>
      cmds_cnt ?w \<le> length (cmds ?w) \<and> (\<forall>c\<in>set (registered ?w). name c \<noteq> None) \<and>
      map fn (filter (\<lambda>c. name c = Some ''cmd'') (registered ?w)) = map Some [7]"
    by code_simp
  have 3: "calls ?w = []"
    by code_simp
  from 1 2 3 empty_line_no_dispatch [where w = ?w and t = LWSHELL_ASCII_LF and n = 8 and fs = "[7]"]
  show ?thesis
    by blast
qed

section \<open>Quoted tokens\<close>

lemma quote_loop_stop:
  assumes "str \<le> j" and "j < length b" and "quote_stop b str j"
    and "\<forall>i. str \<le> i \<and> i < j \<longrightarrow> \<not> quote_stop b str i"
  shows "quote_loop b str =
           Some (if b ! j = LWSHELL_ASCII_NULL then (b, j) else (b[j := LWSHELL_ASCII_NULL], j + 1))"
  using assms
proof (induction b str rule: quote_loop.induct)
  case (1 b str)
  show ?case
  proof (cases "j = str")
    case True
    with "1.prems"(2,3) show ?thesis
      by (auto simp: quote_loop.simps [of b str] quote_stop_def)
  next
    case False
    with "1.prems"(1) have lt: "str < j"
      by simp
    with "1.prems"(4) have ns: "\<not> quote_stop b str str"
      by simp
    then have nz: "b ! str \<noteq> LWSHELL_ASCII_NULL" and nq: "b ! str \<noteq> QUOTE"
      by (simp_all add: quote_stop_def)
    from lt "1.prems"(2) have len: "\<not> length b \<le> str" "\<not> length b \<le> str + 1"
      by simp_all
    consider (esc) "b ! str = BACKSLASH" "b ! (str + 1) = QUOTE"
      | (bs) "b ! str = BACKSLASH" "b ! (str + 1) \<noteq> QUOTE"
      | (other) "b ! str \<noteq> BACKSLASH"
      by blast
    then show ?thesis
    proof cases
      case esc
      then have "\<not> quote_stop b str (str + 1)"
        by (simp add: quote_stop_def)
      with "1.prems"(3) lt have j2: "str + 2 \<le> j"
        by (cases "j = str + 1") auto
      have same: "quote_stop b (str + 2) i = quote_stop b str i" if "str + 2 \<le> i" for i
        using that esc by (cases "i = str + 2") (auto simp: quote_stop_def)
      have "quote_loop b (str + 2) =
           Some (if b ! j = LWSHELL_ASCII_NULL then (b, j) else (b[j := LWSHELL_ASCII_NULL], j + 1))"
      proof (rule "1.IH"(1))
        show "quote_stop b (str + 2) j"
          using same [OF j2] "1.prems"(3) by simp
        show "\<forall>i. str + 2 \<le> i \<and> i < j \<longrightarrow> \<not> quote_stop b (str + 2) i"
          using same "1.prems"(4) by auto
      qed (use len nz esc j2 "1.prems"(2) in simp_all)
      with len nz esc show ?thesis
        by (simp add: quote_loop.simps [of b str])
    next
      case bs
      from lt have j1: "str + 1 \<le> j"
        by simp
      have same: "quote_stop b (str + 1) i = quote_stop b str i" if "str + 1 \<le> i" for i
        using that bs by (cases "i = str + 1") (auto simp: quote_stop_def)
      have "quote_loop b (str + 1) =
           Some (if b ! j = LWSHELL_ASCII_NULL then (b, j) else (b[j := LWSHELL_ASCII_NULL], j + 1))"
      proof (rule "1.IH"(2))
        show "quote_stop b (str + 1) j"
          using same [OF j1] "1.prems"(3) by simp
        show "\<forall>i. str + 1 \<le> i \<and> i < j \<longrightarrow> \<not> quote_stop b (str + 1) i"
          using same "1.prems"(4) by auto
      qed (use len nz bs j1 "1.prems"(2) in simp_all)
      with len nz bs show ?thesis
        by (simp add: quote_loop.simps [of b str])
    next
      case other
      from lt have j1: "str + 1 \<le> j"
        by simp
      have same: "quote_stop b (str + 1) i = quote_stop b str i" if "str + 1 \<le> i" for i
        using that other by (cases "i = str + 1") (auto simp: quote_stop_def)
      have "quote_loop b (str + 1) =
           Some (if b ! j = LWSHELL_ASCII_NULL then (b, j) else (b[j := LWSHELL_ASCII_NULL], j + 1))"
      proof (rule "1.IH"(3))
        show "quote_stop b (str + 1) j"
          using same [OF j1] "1.prems"(3) by simp
        show "\<forall>i. str + 1 \<le> i \<and> i < j \<longrightarrow> \<not> quote_stop b (str + 1) i"
          using same "1.prems"(4) by auto
      qed (use len nz nq other j1 "1.prems"(2) in simp_all)
      with len nz nq other show ?thesis
        by (simp add: quote_loop.simps [of b str])
    qed
  qed
qed

lemma c_string_take:
  assumes "p < length m" and "\<forall>i<p. m ! i \<noteq> LWSHELL_ASCII_NULL" and "m ! p = LWSHELL_ASCII_NULL"
  shows "c_string m = Some (take p m)"
proof -
  have mem: "LWSHELL_ASCII_NULL \<in> set m"
    using assms(1,3) by (metis nth_mem)
  have "takeWhile (\<lambda>c. c \<noteq> LWSHELL_ASCII_NULL) m = take p m"
    using assms by (intro takeWhile_eq_take_P_nth) auto
  with mem show ?thesis
    by (simp add: c_string_def)
qed

lemma quoted_token_value:
  assumes "str \<le> j" and "j < length b" and "quote_stop b str j"
    and "\<forall>i\<in>{str..<j}. \<not> quote_stop b str i"
  shows "quoted_token_of b str = Some (take (j - str) (drop str b))"
proof -
  let ?b' = "if b ! j = LWSHELL_ASCII_NULL then b else b[j := LWSHELL_ASCII_NULL]"
  from assms(4) have "\<forall>i. str \<le> i \<and> i < j \<longrightarrow> \<not> quote_stop b str i"
    by simp
  from quote_loop_stop [OF assms(1-3) this]
  have q: "quoted_token_of b str = c_string (drop str ?b')"
    by (simp add: quoted_token_of_def arg_value_def)
  have "c_string (drop str ?b') = Some (take (j - str) (drop str ?b'))"
  proof (rule c_string_take)
    show "j - str < length (drop str ?b')"
      using assms(1,2) by auto
    show "\<forall>i<j - str. drop str ?b' ! i \<noteq> LWSHELL_ASCII_NULL"
    proof (intro allI impI)
      fix i assume i: "i < j - str"
      then have "str + i \<in> {str..<j}"
        by auto
      with assms(4) have "\<not> quote_stop b str (str + i)"
        by blast
      then have "b ! (str + i) \<noteq> LWSHELL_ASCII_NULL"
        by (simp add: quote_stop_def)
      with i assms(1,2) show "drop str ?b' ! i \<noteq> LWSHELL_ASCII_NULL"
        by auto
    qed
    show "drop str ?b' ! (j - str) = LWSHELL_ASCII_NULL"
      using assms(1,2) by auto
  qed
  moreover have "take (j - str) (drop str ?b') = take (j - str) (drop str b)"
    using assms(1) by (auto simp: drop_update_swap)
  ultimately show ?thesis
    using q by simp
qed

text \<open>
  C4, as amended. In a quoted token a quote is escaped exactly when the byte just
  before it, inside the token, is a backslash; a backslash escapes nothing else, so a
  backslash that follows a backslash still escapes a quote after it. The token ends at
  the first quote that is not escaped (overwritten by the terminator, the scan going on
  after it) or at the end of the line, and every byte before that end, backslashes
  included, is in the token unchanged.
\<close>

theorem quoted_escape_rule:
  assumes "str \<le> j" and "j < length b" and "quote_stop b str j"
    and "\<forall>i\<in>{str..<j}. \<not> quote_stop b str i"
  shows "quote_loop b str =
           Some (if b ! j = LWSHELL_ASCII_NULL then (b, j)
                 else (b[j := LWSHELL_ASCII_NULL], j + 1)) \<and>
         quoted_token_of b str = Some (take (j - str) (drop str b))"
proof
  from assms(4) have "\<forall>i. str \<le> i \<and> i < j \<longrightarrow> \<not> quote_stop b str i"
    by simp
  from quote_loop_stop [OF assms(1-3) this]
  show "quote_loop b str =
           Some (if b ! j = LWSHELL_ASCII_NULL then (b, j)
                 else (b[j := LWSHELL_ASCII_NULL], j + 1))" .
  from quoted_token_value [OF assms]
  show "quoted_token_of b str = Some (take (j - str) (drop str b))" .
qed

theorem quoted_escape_rule_witness:
  "quote_loop ([QUOTE] @ ''a'' @ [BACKSLASH, QUOTE] @ ''b'' @ [QUOTE] @ '' c'' @ [LWSHELL_ASCII_NULL]) 1 =
     Some ([QUOTE] @ ''a'' @ [BACKSLASH, QUOTE] @ ''b'' @ [LWSHELL_ASCII_NULL] @ '' c'' @
             [LWSHELL_ASCII_NULL], 6) \<and>
   quoted_token_of
     ([QUOTE] @ ''a'' @ [BACKSLASH, QUOTE] @ ''b'' @ [QUOTE] @ '' c'' @ [LWSHELL_ASCII_NULL]) 1 =
     Some (''a'' @ [BACKSLASH, QUOTE] @ ''b'')"
proof -
  let ?b = "[QUOTE] @ ''a'' @ [BACKSLASH, QUOTE] @ ''b'' @ [QUOTE] @ '' c'' @ [LWSHELL_ASCII_NULL]"
  have 1: "(1 :: nat) \<le> 5"
    by simp
  have 2: "5 < length ?b"
    by simp
  have 3: "quote_stop ?b 1 5"
    by code_simp
  have 4: "\<forall>i\<in>{1..<5}. \<not> quote_stop ?b 1 i"
    by code_simp
  from quoted_escape_rule [OF 1 2 3 4] show ?thesis
    by simp
qed

text \<open>
  C4 as stated fails on a doubled backslash before a quote. For the text \<open>a\\" b\<close> after
  the opening quote, the rule as stated ends the token at the quote (the first
  backslash escapes the second, so the quote is not escaped) and gives \<open>a\\\<close>; the
  code skips the quote and the token runs to the end of the line.
\<close>

theorem quoted_escape_counterexample:
  "spec_quoted_token (''a'' @ [BACKSLASH, BACKSLASH, QUOTE] @ '' b'') = ''a'' @ [BACKSLASH, BACKSLASH] \<and>
   quoted_token_of
     ([QUOTE] @ ''a'' @ [BACKSLASH, BACKSLASH, QUOTE] @ '' b'' @ [LWSHELL_ASCII_NULL]) 1 =
     Some (''a'' @ [BACKSLASH, BACKSLASH, QUOTE] @ '' b'') \<and>
   quoted_token_of
     ([QUOTE] @ ''a'' @ [BACKSLASH, BACKSLASH, QUOTE] @ '' b'' @ [LWSHELL_ASCII_NULL]) 1 \<noteq>
     Some (spec_quoted_token (''a'' @ [BACKSLASH, BACKSLASH, QUOTE] @ '' b'')) \<and>
   map_option (calls \<circ> snd)
     (lwshell_input
        (Some (''cmd '' @ [QUOTE] @ ''a'' @ [BACKSLASH, BACKSLASH, QUOTE] @ '' b'' @ [LWSHELL_ASCII_LF]))
        12 (with_cmd ''cmd'' 7 (startup 16 4 2))) =
     Some [Invoke 7 2 [Some ''cmd'', Some (''a'' @ [BACKSLASH, BACKSLASH, QUOTE] @ '' b'')]]"
  by code_simp

section \<open>Quoted tokens in a line\<close>

lemma parse_loop_hello:
  assumes "2 \<le> length (argv lw)"
    and "buff lw = ''cmd '' @ [QUOTE] @ ''hello world'' @ [QUOTE] @ LWSHELL_ASCII_NULL # t"
  shows "parse_loop (lw\<lparr>argc := 0, argv := (argv lw)[0 := Some 0]\<rparr>) 0 =
         Some (lw\<lparr>buff := ''cmd'' @ [LWSHELL_ASCII_NULL, QUOTE] @ ''hello world'' @
                          [LWSHELL_ASCII_NULL] @ LWSHELL_ASCII_NULL # t,
                  argc := 2, argv := (argv lw)[0 := Some 0, 1 := Some 5]\<rparr>)"
proof (cases "length (argv lw) = Suc (Suc 0)")
  case True
  with assms(2) show ?thesis
    by (cases lw)
      (simp add: parse_loop.simps skip_spaces.simps word_loop.simps quote_loop.simps Let_def
        eval_nat_numeral)
next
  case False
  with assms(1) have "Suc (Suc 0) \<noteq> length (argv lw)" "Suc 0 \<noteq> length (argv lw)"
    "Suc 0 < length (argv lw)" "argv lw \<noteq> []"
    by auto
  with assms show ?thesis
    by (cases lw)
      (simp add: parse_loop.simps skip_spaces.simps word_loop.simps quote_loop.simps Let_def
        eval_nat_numeral)
qed

lemma typed_line:
  assumes "fresh n w" and "\<forall>c\<in>set s. is_printable c" and "s \<noteq> []" and "length s < n"
    and "argv (shell w) \<noteq> []"
    and "parse_loop ((shell w)\<lparr>buff := s @ replicate (n - length s) LWSHELL_ASCII_NULL,
                               buff_ptr := length s, argc := 0,
                               argv := (argv (shell w))[0 := Some 0]\<rparr>) 0 = Some lw'"
    and "0 < argc lw'" and "arg_value (buff lw') (argv lw' ! 0) = Some a0"
    and "cmds_cnt w \<le> length (cmds w)" and "\<forall>c\<in>set (registered w). name c \<noteq> None"
    and "map fn (filter (\<lambda>c. name c = Some a0) (registered w)) = map Some fs"
    and "t = LWSHELL_ASCII_CR \<or> t = LWSHELL_ASCII_LF"
  shows "input_loop (s @ [t]) w =
           Some (w\<lparr>shell := LWSHELL_RESET_BUFF lw',
                   calls := calls w @
                     map (\<lambda>f. Invoke f (argc lw')
                                 (map (arg_value (buff lw')) (take (argc lw') (argv lw')))) fs\<rparr>)"
proof -
  let ?w1 = "w\<lparr>shell := (shell w)
                   \<lparr>buff := s @ replicate (n - length s) LWSHELL_ASCII_NULL,
                    buff_ptr := length s\<rparr>\<rparr>"
  have typed: "input_loop s w = Some ?w1"
    using assms(1,2,4) by (rule type_printable)
  have len: "strlen (buff (shell ?w1)) = Some (buff_ptr (shell ?w1))"
    using strlen_typed [OF assms(2,4)] by simp
  have tok: "parse_loop ((shell ?w1)\<lparr>argc := 0, argv := (argv (shell ?w1))[0 := Some 0]\<rparr>) 0 =
          Some lw'"
    using assms(6) by simp
  have "prv_parse_input ?w1 =
          Some (?w1\<lparr>shell := lw',
                   calls := calls ?w1 @
                     map (\<lambda>f. Invoke f (argc lw')
                                 (map (arg_value (buff lw')) (take (argc lw') (argv lw')))) fs\<rparr>)"
    using assms(3,5,7-11) by (intro parse_dispatch [OF len _ _ tok]) (simp_all add: registered_def)
  moreover have "input_byte t ?w1 =
          map_option (\<lambda>w'. w'\<lparr>shell := LWSHELL_RESET_BUFF (shell w')\<rparr>) (prv_parse_input ?w1)"
    using assms(12) by (auto simp: input_byte_def)
  ultimately have step: "input_byte t ?w1 =
      Some (w\<lparr>shell := LWSHELL_RESET_BUFF lw',
              calls := calls w @
                map (\<lambda>f. Invoke f (argc lw')
                            (map (arg_value (buff lw')) (take (argc lw') (argv lw')))) fs\<rparr>)"
    by simp
  have "input_loop (s @ [t]) w = input_loop [t] ?w1"
    by (simp only: input_loop_append typed option.case)
  with step show ?thesis
    by simp
qed

lemma hello_line:
  assumes "fresh n w" and "18 \<le> n" and "2 \<le> length (argv (shell w))"
    and "cmds_cnt w \<le> length (cmds w)" and "\<forall>c\<in>set (registered w). name c \<noteq> None"
    and "map fn (filter (\<lambda>c. name c = Some ''cmd'') (registered w)) = map Some fs"
  shows "input_loop ((''cmd '' @ [QUOTE] @ ''hello world'' @ [QUOTE]) @ [LWSHELL_ASCII_LF]) w =
           Some (w\<lparr>shell := LWSHELL_RESET_BUFF ((shell w)\<lparr>argc := 2\<rparr>),
                   calls := calls w @
                     map (\<lambda>f. Invoke f 2 [Some ''cmd'', Some ''hello world'']) fs\<rparr>)"
proof -
  let ?s = "''cmd '' @ [QUOTE] @ ''hello world'' @ [QUOTE]"
  define k where "k = n - 18"
  with assms(2) have k: "n - length ?s = Suc k" and n: "n = length ?s + Suc k"
    by simp_all
  let ?lw0 = "(shell w)\<lparr>buff := ?s @ replicate (n - length ?s) LWSHELL_ASCII_NULL,
                         buff_ptr := length ?s\<rparr>"
  let ?lw' = "?lw0\<lparr>buff := ''cmd'' @ [LWSHELL_ASCII_NULL, QUOTE] @ ''hello world'' @
                          [LWSHELL_ASCII_NULL] @
                          LWSHELL_ASCII_NULL # replicate k LWSHELL_ASCII_NULL,
                    argc := 2, argv := (argv ?lw0)[0 := Some 0, 1 := Some 5]\<rparr>"
  have eq: "?s @ replicate (n - length ?s) LWSHELL_ASCII_NULL =
      ''cmd '' @ [QUOTE] @ ''hello world'' @ [QUOTE] @
        LWSHELL_ASCII_NULL # replicate k LWSHELL_ASCII_NULL"
    unfolding k by simp
  have tok: "parse_loop ((shell w)\<lparr>buff := ?s @ replicate (n - length ?s) LWSHELL_ASCII_NULL,
                               buff_ptr := length ?s, argc := 0,
                               argv := (argv (shell w))[0 := Some 0]\<rparr>) 0 = Some ?lw'"
    unfolding eq
    using assms(3)
      parse_loop_hello [of "(shell w)\<lparr>buff := ''cmd '' @ [QUOTE] @ ''hello world'' @ [QUOTE] @
          LWSHELL_ASCII_NULL # replicate k LWSHELL_ASCII_NULL, buff_ptr := length ?s\<rparr>"
        "replicate k LWSHELL_ASCII_NULL"]
    by simp
  from assms(3) obtain a1 a2 av where av: "argv (shell w) = a1 # a2 # av"
    by (cases "argv (shell w)"; cases "tl (argv (shell w))") auto
  have args: "map (arg_value (buff ?lw')) (take (argc ?lw') (argv ?lw')) =
          [Some ''cmd'', Some ''hello world'']"
    by (simp add: av arg_value_def c_string_def eval_nat_numeral)
  have a0: "arg_value (buff ?lw') (argv ?lw' ! 0) = Some ''cmd''"
    by (simp add: av arg_value_def c_string_def)
  have reset: "LWSHELL_RESET_BUFF ?lw' = LWSHELL_RESET_BUFF ((shell w)\<lparr>argc := 2\<rparr>)"
    using assms(1) n by (simp add: LWSHELL_RESET_BUFF_def fresh_def)
  have "input_loop (?s @ [LWSHELL_ASCII_LF]) w =
           Some (w\<lparr>shell := LWSHELL_RESET_BUFF ?lw',
                   calls := calls w @
                     map (\<lambda>f. Invoke f (argc ?lw')
                                 (map (arg_value (buff ?lw')) (take (argc ?lw') (argv ?lw')))) fs\<rparr>)"
    using assms(1,2,3,4,5,6)
    by (intro typed_line [OF _ _ _ _ _ tok _ a0]) (auto simp: is_printable_def)
  then show ?thesis
    unfolding args reset by simp
qed

lemma parse_loop_quoted_step:
  assumes "buff lw ! str \<noteq> LWSHELL_ASCII_NULL" and "skip_spaces (buff lw) str = Some q"
    and "buff lw ! q = QUOTE" and "argc lw < length (argv lw)"
    and "q + 1 \<le> j" and "j < length (buff lw)" and "quote_stop (buff lw) (q + 1) j"
    and "\<forall>i\<in>{q + 1..<j}. \<not> quote_stop (buff lw) (q + 1) i"
  shows "parse_loop lw str =
           (let lw' = lw\<lparr>buff := (if buff lw ! j = LWSHELL_ASCII_NULL then buff lw
                                     else (buff lw)[j := LWSHELL_ASCII_NULL]),
                           argc := argc lw + 1,
                           argv := (argv lw)[argc lw := Some (q + 1)]\<rparr>
            in if argc lw' = length (argv lw') then Some lw'
               else parse_loop lw' (if buff lw ! j = LWSHELL_ASCII_NULL then j else j + 1))"
proof -
  from skip_spaces_bounds [OF assms(2)] have "\<not> length (buff lw) \<le> str"
    by simp
  moreover from assms(8) have "\<forall>i. q + 1 \<le> i \<and> i < j \<longrightarrow> \<not> quote_stop (buff lw) (q + 1) i"
    by simp
  from quote_loop_stop [OF assms(5-7) this]
  have "quote_loop (buff lw) (q + 1) =
          Some (if buff lw ! j = LWSHELL_ASCII_NULL then (buff lw, j)
                else ((buff lw)[j := LWSHELL_ASCII_NULL], j + 1))" .
  ultimately show ?thesis
    using assms(1-4) by (simp add: parse_loop.simps [of lw str] Let_def)
qed

text \<open>
  The tokenizer writes only at and after \<open>str\<close>, never lowers \<open>argc\<close>, and leaves the
  entries of \<open>argv\<close> below \<open>argc\<close> alone: a token, once stored, stays as it is.
\<close>

lemma quote_loop_frame:
  "quote_loop b str = Some (b', str') \<Longrightarrow> k \<le> str \<Longrightarrow> take k b' = take k b"
proof (induction b str rule: quote_loop.induct)
  case (1 b str)
  show ?case
    using "1.prems" "1.IH"
    by (subst (asm) quote_loop.simps[of b str]) (auto split: if_splits)
qed

lemma word_loop_frame:
  "word_loop b str = Some (b', str') \<Longrightarrow> k \<le> str \<Longrightarrow> take k b' = take k b"
proof (induction b str rule: word_loop.induct)
  case (1 b str)
  show ?case
    using "1.prems" "1.IH"
    by (subst (asm) word_loop.simps[of b str]) (auto split: if_splits)
qed

lemma take_take_le: "take k xs = take k ys" if "take n xs = take n ys" and "k \<le> n"
proof -
  have "take k xs = take k (take n xs)"
    using that(2) by (simp add: min_def)
  also have "\<dots> = take k (take n ys)"
    using that(1) by simp
  also have "\<dots> = take k ys"
    using that(2) by (simp add: min_def)
  finally show ?thesis .
qed

lemma parse_loop_frame:
  "parse_loop lw str = Some lw' \<Longrightarrow> k \<le> str \<Longrightarrow>
     take k (buff lw') = take k (buff lw) \<and> argc lw \<le> argc lw' \<and>
     take (argc lw) (argv lw') = take (argc lw) (argv lw)"
proof (induction lw str arbitrary: k rule: parse_loop.induct)
  case (1 lw str)
  have len: "\<not> length (buff lw) \<le> str"
    using "1.prems"(1) by (subst (asm) parse_loop.simps[of lw str]) (simp split: if_splits)
  show ?case
  proof (cases "buff lw ! str = LWSHELL_ASCII_NULL")
    case True
    with len "1.prems"(1) show ?thesis
      by (simp add: parse_loop.simps[of lw str])
  next
    case nz: False
    with len "1.prems"(1) obtain str1 where sk: "skip_spaces (buff lw) str = Some str1"
      by (subst (asm) parse_loop.simps[of lw str]) (auto split: option.splits)
    from skip_spaces_bounds [OF sk] have s1: "str \<le> str1"
      by simp
    show ?thesis
    proof (cases "buff lw ! str1 = LWSHELL_ASCII_NULL")
      case True
      with len nz sk "1.prems"(1) show ?thesis
        by (simp add: parse_loop.simps[of lw str])
    next
      case nz1: False
      with len nz sk "1.prems"(1) have room: "\<not> length (argv lw) \<le> argc lw"
        by (subst (asm) parse_loop.simps[of lw str]) (auto split: if_splits)
      show ?thesis
      proof (cases "buff lw ! str1 = QUOTE")
        case q: True
        with len nz sk nz1 room "1.prems"(1) obtain b' str2 where
          ql: "quote_loop (buff lw) (str1 + 1) = Some (b', str2)"
          by (subst (asm) parse_loop.simps[of lw str]) (auto split: option.splits)
        let ?lw1 = "lw\<lparr>buff := b', argc := argc lw + 1,
                         argv := (argv lw)[argc lw := Some (str1 + 1)]\<rparr>"
        from quote_loop_bounds [OF ql] have s2: "str1 + 1 \<le> str2"
          by simp
        from quote_loop_frame [OF ql, of k] s1 "1.prems"(2) have fb: "take k b' = take k (buff lw)"
          by simp
        show ?thesis
        proof (cases "argc ?lw1 = length (argv ?lw1)")
          case True
          with len nz sk nz1 room q ql "1.prems"(1) have "lw' = ?lw1"
            by (simp add: parse_loop.simps[of lw str] Let_def)
          with fb show ?thesis
            by simp
        next
          case False
          with len nz sk nz1 room q ql "1.prems"(1) have rec: "parse_loop ?lw1 str2 = Some lw'"
            by (simp add: parse_loop.simps[of lw str] Let_def)
          have "take k (buff lw') = take k (buff ?lw1) \<and> argc ?lw1 \<le> argc lw' \<and>
              take (argc ?lw1) (argv lw') = take (argc ?lw1) (argv ?lw1)"
          proof (rule "1.IH"(1))
            show "skip_spaces (buff lw) str = Some str1" by fact
            show "quote_loop (buff lw) (str1 + 1) = Some (b', str2)" by fact
            show "(b', str2) = (b', str2)" ..
            show "?lw1 = ?lw1" ..
            show "parse_loop ?lw1 str2 = Some lw'" by fact
            show "k \<le> str2" using s1 s2 "1.prems"(2) by simp
          qed (use len nz nz1 room q False in simp_all)
          then have a: "take k (buff lw') = take k b'" and b: "argc lw + 1 \<le> argc lw'"
            and c: "take (argc lw + 1) (argv lw') =
                    take (argc lw + 1) ((argv lw)[argc lw := Some (str1 + 1)])"
            by simp_all
          from take_take_le [OF c, of "argc lw"]
          have "take (argc lw) (argv lw') = take (argc lw) (argv lw)"
            by simp
          with a b fb show ?thesis
            by simp
        qed
      next
        case nq: False
        with len nz sk nz1 room "1.prems"(1) obtain b' str2 where
          wl: "word_loop (buff lw) str1 = Some (b', str2)"
          by (subst (asm) parse_loop.simps[of lw str]) (auto split: option.splits)
        let ?lw1 = "lw\<lparr>buff := b'[str2 := LWSHELL_ASCII_NULL], argc := argc lw + 1,
                         argv := (argv lw)[argc lw := Some str1]\<rparr>"
        from word_loop_bounds [OF wl] have s2: "str1 \<le> str2"
          by simp
        from word_loop_frame [OF wl, of k] s1 s2 "1.prems"(2)
        have fb: "take k (b'[str2 := LWSHELL_ASCII_NULL]) = take k (buff lw)"
          by simp
        show ?thesis
        proof (cases "argc ?lw1 = length (argv ?lw1)")
          case True
          with len nz sk nz1 room nq wl "1.prems"(1) have "lw' = ?lw1"
            by (simp add: parse_loop.simps[of lw str] Let_def)
          with fb show ?thesis
            by simp
        next
          case False
          with len nz sk nz1 room nq wl "1.prems"(1)
          have rec: "parse_loop ?lw1 (str2 + 1) = Some lw'"
            by (simp add: parse_loop.simps[of lw str] Let_def)
          have "take k (buff lw') = take k (buff ?lw1) \<and> argc ?lw1 \<le> argc lw' \<and>
              take (argc ?lw1) (argv lw') = take (argc ?lw1) (argv ?lw1)"
          proof (rule "1.IH"(2))
            show "skip_spaces (buff lw) str = Some str1" by fact
            show "word_loop (buff lw) str1 = Some (b', str2)" by fact
            show "(b', str2) = (b', str2)" ..
            show "?lw1 = ?lw1" ..
            show "parse_loop ?lw1 (str2 + 1) = Some lw'" by fact
            show "k \<le> str2 + 1" using s1 s2 "1.prems"(2) by simp
          qed (use len nz nz1 room nq False in simp_all)
          then have a: "take k (buff lw') = take k (b'[str2 := LWSHELL_ASCII_NULL])"
            and b: "argc lw + 1 \<le> argc lw'"
            and c: "take (argc lw + 1) (argv lw') =
                    take (argc lw + 1) ((argv lw)[argc lw := Some str1])"
            by simp_all
          from take_take_le [OF c, of "argc lw"]
          have "take (argc lw) (argv lw') = take (argc lw) (argv lw)"
            by simp
          with a b fb show ?thesis
            by simp
        qed
      qed
    qed
  qed
qed

lemma arg_value_prefix:
  assumes "take (j + 1) bf = take (j + 1) b1" and "q \<le> j" and "j < length b1" and "j < length bf"
    and "\<forall>i. q \<le> i \<and> i < j \<longrightarrow> b1 ! i \<noteq> LWSHELL_ASCII_NULL" and "b1 ! j = LWSHELL_ASCII_NULL"
  shows "arg_value bf (Some q) = Some (take (j - q) (drop q b1))"
proof -
  have same: "bf ! i = b1 ! i" if "i \<le> j" for i
  proof -
    from that have "i < j + 1"
      by simp
    then have "bf ! i = take (j + 1) bf ! i" and "b1 ! i = take (j + 1) b1 ! i"
      by simp_all
    with assms(1) show ?thesis
      by simp
  qed
  have "c_string (drop q bf) = Some (take (j - q) (drop q bf))"
  proof (rule c_string_take)
    show "j - q < length (drop q bf)"
      using assms(2,4) by simp
    show "\<forall>i<j - q. drop q bf ! i \<noteq> LWSHELL_ASCII_NULL"
      using assms(2,4,5) same by auto
    show "drop q bf ! (j - q) = LWSHELL_ASCII_NULL"
      using assms(2,4,6) same [of j] by simp
  qed
  moreover have "take j bf = take j b1"
    using take_take_le [OF assms(1), of j] by simp
  then have "take (j - q) (drop q bf) = take (j - q) (drop q b1)"
    by (simp add: drop_take [symmetric])
  ultimately show ?thesis
    by (simp add: arg_value_def)
qed

lemma parse_loop_at_end:
  "str < length (buff lw) \<Longrightarrow> buff lw ! str = LWSHELL_ASCII_NULL \<Longrightarrow> parse_loop lw str = Some lw"
  by (simp add: parse_loop.simps [of lw str])

lemma quoted_token_seen:
  assumes "buff lw ! str \<noteq> LWSHELL_ASCII_NULL" and "skip_spaces (buff lw) str = Some q"
    and "buff lw ! q = QUOTE" and "argc lw < length (argv lw)"
    and "q + 1 \<le> j" and "j < length (buff lw)" and "quote_stop (buff lw) (q + 1) j"
    and "\<forall>i\<in>{q + 1..<j}. \<not> quote_stop (buff lw) (q + 1) i"
    and "parse_loop lw str = Some lwf"
  shows "argc lw < argc lwf \<and> argv lwf ! argc lw = Some (q + 1) \<and>
         arg_value (buff lwf) (Some (q + 1)) = Some (take (j - (q + 1)) (drop (q + 1) (buff lw)))"
proof -
  let ?b1 = "if buff lw ! j = LWSHELL_ASCII_NULL then buff lw else (buff lw)[j := LWSHELL_ASCII_NULL]"
  let ?next = "if buff lw ! j = LWSHELL_ASCII_NULL then j else j + 1"
  let ?lw1 = "lw\<lparr>buff := ?b1, argc := argc lw + 1, argv := (argv lw)[argc lw := Some (q + 1)]\<rparr>"
  have b1j: "?b1 ! j = LWSHELL_ASCII_NULL" and b1len: "j < length ?b1"
    using assms(6) by auto
  have b1nz: "\<forall>i. q + 1 \<le> i \<and> i < j \<longrightarrow> ?b1 ! i \<noteq> LWSHELL_ASCII_NULL"
    using assms(8) by (auto simp: quote_stop_def)
  have b1tok: "take (j - (q + 1)) (drop (q + 1) ?b1) = take (j - (q + 1)) (drop (q + 1) (buff lw))"
    using assms(5) by (auto simp: drop_update_swap)
  from parse_loop_quoted_step [OF assms(1-8)] assms(9)
  have step: "(if argc ?lw1 = length (argv ?lw1) then Some ?lw1 else parse_loop ?lw1 ?next) = Some lwf"
    by (simp add: Let_def)
  have stop: "parse_loop ?lw1 j = Some ?lw1" if "buff lw ! j = LWSHELL_ASCII_NULL"
    by (rule parse_loop_at_end) (use that assms(6) in simp_all)
  have "argc ?lw1 \<le> argc lwf \<and> take (argc ?lw1) (argv lwf) = take (argc ?lw1) (argv ?lw1) \<and>
        take (j + 1) (buff lwf) = take (j + 1) ?b1 \<and> length (buff lwf) = length (buff lw)"
  proof (cases "argc ?lw1 = length (argv ?lw1) \<or> buff lw ! j = LWSHELL_ASCII_NULL")
    case True
    with step stop have "lwf = ?lw1"
      by (auto split: if_splits)
    then show ?thesis
      by auto
  next
    case False
    with step have rec: "parse_loop ?lw1 (j + 1) = Some lwf"
      by (auto split: if_splits)
    from parse_loop_frame [OF rec, of "j + 1"] parse_loop_lengths [OF rec] False show ?thesis
      by auto
  qed
  then have ac: "argc ?lw1 \<le> argc lwf"
    and av: "take (argc lw + 1) (argv lwf) = take (argc lw + 1) (argv ?lw1)"
    and bf: "take (j + 1) (buff lwf) = take (j + 1) ?b1"
    and bl: "length (buff lwf) = length (buff lw)"
    by simp_all
  have "argv lwf ! argc lw = take (argc lw + 1) (argv lwf) ! argc lw"
    by simp
  also have "\<dots> = argv ?lw1 ! argc lw"
    unfolding av by simp
  also have "\<dots> = Some (q + 1)"
    using assms(4) by simp
  finally have 1: "argv lwf ! argc lw = Some (q + 1)" .
  have "arg_value (buff lwf) (Some (q + 1)) = Some (take (j - (q + 1)) (drop (q + 1) ?b1))"
    using bf assms(5) b1len bl assms(6) b1nz b1j by (intro arg_value_prefix) simp_all
  with b1tok have 2: "arg_value (buff lwf) (Some (q + 1)) =
      Some (take (j - (q + 1)) (drop (q + 1) (buff lw)))"
    by simp
  from ac 1 2 show ?thesis
    by simp
qed

text \<open>
  C5, as amended. A token opened by a quote: after the spaces before it, the token
  starts after the opening quote and runs to the first quote that is the first byte of
  the token or does not directly follow a backslash, which is overwritten by the
  terminator, the scan going on after it; with no such quote it runs to the end of the
  line. When the tokenizer is done, the token's entry of \<open>argv\<close> points to the bytes
  between, spaces included. And the line \<open>cmd "hello world"\<close> with LF, typed into a
  zeroed buffer of at least 18 cells with room for two tokens, invokes the handlers
  \<open>fs\<close> of the entries named \<open>cmd\<close> with the two arguments \<open>cmd\<close> and \<open>hello world\<close>.
\<close>

theorem quoted_token_spans_spaces:
  "(buff lw ! str \<noteq> LWSHELL_ASCII_NULL \<and> skip_spaces (buff lw) str = Some q \<and>
    buff lw ! q = QUOTE \<and> argc lw < length (argv lw) \<and>
    q + 1 \<le> j \<and> j < length (buff lw) \<and> quote_stop (buff lw) (q + 1) j \<and>
    (\<forall>i\<in>{q + 1..<j}. \<not> quote_stop (buff lw) (q + 1) i) \<longrightarrow>
      parse_loop lw str =
        (let lw' = lw\<lparr>buff := (if buff lw ! j = LWSHELL_ASCII_NULL then buff lw
                                  else (buff lw)[j := LWSHELL_ASCII_NULL]),
                        argc := argc lw + 1,
                        argv := (argv lw)[argc lw := Some (q + 1)]\<rparr>
         in if argc lw' = length (argv lw') then Some lw'
            else parse_loop lw' (if buff lw ! j = LWSHELL_ASCII_NULL then j else j + 1)) \<and>
      (parse_loop lw str = Some lwf \<longrightarrow>
         argc lw < argc lwf \<and> argv lwf ! argc lw = Some (q + 1) \<and>
         arg_value (buff lwf) (Some (q + 1)) =
           Some (take (j - (q + 1)) (drop (q + 1) (buff lw))))) \<and>
   (fresh n w \<and> 18 \<le> n \<and> 2 \<le> length (argv (shell w)) \<and> cmds_cnt w \<le> length (cmds w) \<and>
    (\<forall>c\<in>set (registered w). name c \<noteq> None) \<and>
    map fn (filter (\<lambda>c. name c = Some ''cmd'') (registered w)) = map Some fs \<longrightarrow>
      lwshell_input
        (Some (''cmd '' @ [QUOTE] @ ''hello world'' @ [QUOTE] @ [LWSHELL_ASCII_LF])) 18 w =
        Some (lwshellOK,
              w\<lparr>shell := LWSHELL_RESET_BUFF ((shell w)\<lparr>argc := 2\<rparr>),
                calls := calls w @
                  map (\<lambda>f. Invoke f 2 [Some ''cmd'', Some ''hello world'']) fs\<rparr>))"
proof (intro conjI impI)
  assume a: "buff lw ! str \<noteq> LWSHELL_ASCII_NULL \<and> skip_spaces (buff lw) str = Some q \<and>
    buff lw ! q = QUOTE \<and> argc lw < length (argv lw) \<and>
    q + 1 \<le> j \<and> j < length (buff lw) \<and> quote_stop (buff lw) (q + 1) j \<and>
    (\<forall>i\<in>{q + 1..<j}. \<not> quote_stop (buff lw) (q + 1) i)"
  then show "parse_loop lw str =
        (let lw' = lw\<lparr>buff := (if buff lw ! j = LWSHELL_ASCII_NULL then buff lw
                                  else (buff lw)[j := LWSHELL_ASCII_NULL]),
                        argc := argc lw + 1,
                        argv := (argv lw)[argc lw := Some (q + 1)]\<rparr>
         in if argc lw' = length (argv lw') then Some lw'
            else parse_loop lw' (if buff lw ! j = LWSHELL_ASCII_NULL then j else j + 1))"
    by (intro parse_loop_quoted_step) simp_all
  assume "parse_loop lw str = Some lwf"
  with a have "argc lw < argc lwf \<and> argv lwf ! argc lw = Some (q + 1) \<and>
         arg_value (buff lwf) (Some (q + 1)) = Some (take (j - (q + 1)) (drop (q + 1) (buff lw)))"
    by (intro quoted_token_seen [of lw str q j lwf]) simp_all
  then show "argc lw < argc lwf" and "argv lwf ! argc lw = Some (q + 1)"
    and "arg_value (buff lwf) (Some (q + 1)) = Some (take (j - (q + 1)) (drop (q + 1) (buff lw)))"
    by simp_all
next
  assume a: "fresh n w \<and> 18 \<le> n \<and> 2 \<le> length (argv (shell w)) \<and>
    cmds_cnt w \<le> length (cmds w) \<and> (\<forall>c\<in>set (registered w). name c \<noteq> None) \<and>
    map fn (filter (\<lambda>c. name c = Some ''cmd'') (registered w)) = map Some fs"
  then have "input_loop ((''cmd '' @ [QUOTE] @ ''hello world'' @ [QUOTE]) @ [LWSHELL_ASCII_LF]) w =
           Some (w\<lparr>shell := LWSHELL_RESET_BUFF ((shell w)\<lparr>argc := 2\<rparr>),
                   calls := calls w @
                     map (\<lambda>f. Invoke f 2 [Some ''cmd'', Some ''hello world'']) fs\<rparr>)"
    by (intro hello_line [of n]) simp_all
  then show "lwshell_input
        (Some (''cmd '' @ [QUOTE] @ ''hello world'' @ [QUOTE] @ [LWSHELL_ASCII_LF])) 18 w =
        Some (lwshellOK,
              w\<lparr>shell := LWSHELL_RESET_BUFF ((shell w)\<lparr>argc := 2\<rparr>),
                calls := calls w @
                  map (\<lambda>f. Invoke f 2 [Some ''cmd'', Some ''hello world'']) fs\<rparr>)"
    by (intro lwshell_input_done) simp_all
qed

theorem quoted_token_spans_spaces_witness:
  "parse_loop after_first_token 4 =
     Some \<lparr>buff = ''cmd'' @ [LWSHELL_ASCII_NULL, QUOTE] @ ''hello world'' @
                    [LWSHELL_ASCII_NULL] @ replicate 7 LWSHELL_ASCII_NULL,
           buff_ptr = 17, argc = 2, argv = [Some 0, Some 5, None, None]\<rparr> \<and>
   arg_value (''cmd'' @ [LWSHELL_ASCII_NULL, QUOTE] @ ''hello world'' @
                [LWSHELL_ASCII_NULL] @ replicate 7 LWSHELL_ASCII_NULL) (Some 5) =
     Some ''hello world'' \<and>
   lwshell_input
       (Some (''cmd '' @ [QUOTE] @ ''hello world'' @ [QUOTE] @ [LWSHELL_ASCII_LF])) 18
       (with_cmd ''cmd'' 7 (startup 24 4 2)) =
     Some (lwshellOK,
           (with_cmd ''cmd'' 7 (startup 24 4 2))
             \<lparr>shell := LWSHELL_RESET_BUFF ((shell (with_cmd ''cmd'' 7 (startup 24 4 2)))\<lparr>argc := 2\<rparr>),
              calls := [Invoke 7 2 [Some ''cmd'', Some ''hello world'']]\<rparr>)"
proof -
  let ?w = "with_cmd ''cmd'' 7 (startup 24 4 2)"
  let ?lwf = "\<lparr>buff = ''cmd'' @ [LWSHELL_ASCII_NULL, QUOTE] @ ''hello world'' @
                    [LWSHELL_ASCII_NULL] @ replicate 7 LWSHELL_ASCII_NULL,
           buff_ptr = 17, argc = 2, argv = [Some 0, Some 5, None, None]\<rparr>"
  have 1: "buff after_first_token ! 4 \<noteq> LWSHELL_ASCII_NULL \<and>
      skip_spaces (buff after_first_token) 4 = Some 4 \<and>
      buff after_first_token ! 4 = QUOTE \<and>
      argc after_first_token < length (argv after_first_token) \<and>
      (4 :: nat) + 1 \<le> 16 \<and> 16 < length (buff after_first_token) \<and>
      quote_stop (buff after_first_token) (4 + 1) 16 \<and>
      (\<forall>i\<in>{4 + 1..<16}. \<not> quote_stop (buff after_first_token) (4 + 1) i)"
    by code_simp
  have 2: "fresh 24 ?w \<and> (18 :: nat) \<le> 24 \<and> 2 \<le> length (argv (shell ?w)) \<and>
      cmds_cnt ?w \<le> length (cmds ?w) \<and> (\<forall>c\<in>set (registered ?w). name c \<noteq> None) \<and>
      map fn (filter (\<lambda>c. name c = Some ''cmd'') (registered ?w)) = map Some [7]"
    by code_simp
  have 3: "calls ?w = []"
    by code_simp
  have 4: "parse_loop after_first_token 4 = Some ?lwf"
    by code_simp
  from quoted_token_spans_spaces
    [where lw = after_first_token and str = 4 and q = 4 and j = 16 and lwf = ?lwf and n = 24
       and w = ?w and fs = "[7]"] 1 2 4
  have "arg_value (buff ?lwf) (Some (4 + 1)) =
           Some (take (16 - (4 + 1)) (drop (4 + 1) (buff after_first_token)))"
    and "lwshell_input
        (Some (''cmd '' @ [QUOTE] @ ''hello world'' @ [QUOTE] @ [LWSHELL_ASCII_LF])) 18 ?w =
        Some (lwshellOK,
              ?w\<lparr>shell := LWSHELL_RESET_BUFF ((shell ?w)\<lparr>argc := 2\<rparr>),
                calls := calls ?w @
                  map (\<lambda>f. Invoke f 2 [Some ''cmd'', Some ''hello world'']) [7]\<rparr>)"
    by blast+
  with 3 4 show ?thesis
    by (simp add: after_first_token_def eval_nat_numeral)
qed

text \<open>
  C5 as stated fails where C4 does. In the line \<open>cmd "a\\" b\<close> the first quote that is
  not escaped, the first backslash escaping the second, stands at index 8: the token
  would be \<open>a\\\<close> and that quote would be overwritten and stepped over. The code leaves
  the quote at index 8 in place and the token runs to the end of the line.
\<close>

theorem quoted_token_counterexample:
  "map_option (shell \<circ> snd)
     (lwshell_input (Some (''cmd '' @ [QUOTE] @ ''a'' @ [BACKSLASH, BACKSLASH, QUOTE] @ '' b'')) 11
        (startup 16 4 2)) =
     Some \<lparr>buff = ''cmd '' @ [QUOTE] @ ''a'' @ [BACKSLASH, BACKSLASH, QUOTE] @ '' b'' @
                  replicate 5 LWSHELL_ASCII_NULL,
           buff_ptr = 11, argc = 0, argv = replicate 4 None\<rparr> \<and>
   spec_quoted_token (''a'' @ [BACKSLASH, BACKSLASH, QUOTE] @ '' b'') = ''a'' @ [BACKSLASH, BACKSLASH] \<and>
   parse_loop after_cmd_token 4 =
     Some (after_cmd_token\<lparr>argc := 2, argv := [Some 0, Some 5, None, None]\<rparr>) \<and>
   buff (after_cmd_token\<lparr>argc := 2, argv := [Some 0, Some 5, None, None]\<rparr>) ! 8 = QUOTE \<and>
   arg_value (buff (after_cmd_token\<lparr>argc := 2, argv := [Some 0, Some 5, None, None]\<rparr>)) (Some 5) =
     Some (''a'' @ [BACKSLASH, BACKSLASH, QUOTE] @ '' b'') \<and>
   arg_value (buff (after_cmd_token\<lparr>argc := 2, argv := [Some 0, Some 5, None, None]\<rparr>)) (Some 5) \<noteq>
     Some (spec_quoted_token (''a'' @ [BACKSLASH, BACKSLASH, QUOTE] @ '' b''))"
  by code_simp

end
